theory Spec2Isabelle
  imports Main
begin

section \<open>Terminated cursors\<close>

text \<open>
  The library reads every string through a \<^emph>\<open>terminated iterator\<close>: either a
  \<open>null_terminated_string_iterator\<close> (a pointer, at its end when it points at the
  terminating null) or an \<open>endpos_terminated_string_iterator\<close> (a position and an end
  position, at its end when both are equal).  Both denote the code units from the
  current position up to the end of the string, and this list is how a cursor is
  modelled: \<open>is_end_position\<close> is emptiness, \<open>operator*\<close> is the head, \<open>operator++\<close> is
  the tail.  The position of a cursor inside the string it was made from is the length
  of the string minus the length of what the cursor still has to read.
\<close>

type_synonym 'a cursor = "'a list"

definition is_end_position :: "'a cursor \<Rightarrow> bool" where
  "is_end_position itt = (itt = [])"

text \<open>
  \<open>operator-\<close> of two cursors into the same string: the number of units between the
  position of \<open>rhs\<close> and the position of \<open>lhs\<close> (the library only subtracts an earlier
  position from a later one).
\<close>

definition distance :: "'a cursor \<Rightarrow> 'a cursor \<Rightarrow> nat" where
  "distance lhs rhs = length rhs - length lhs"

text \<open>\<open>operator==\<close> of two cursors into the same string compares their positions.\<close>

definition same_position :: "'a cursor \<Rightarrow> 'a cursor \<Rightarrow> bool" where
  "same_position lhs rhs = (length lhs = length rhs)"

text \<open>
  \<open>text_type(first, last)\<close>: the string object built from the units between two
  positions of one string, each position given by the cursor standing there.
\<close>

definition text_between :: "'a cursor \<Rightarrow> 'a cursor \<Rightarrow> 'a list" where
  "text_between first_pos last_pos = take (distance last_pos first_pos) first_pos"

text \<open>
  A reverse cursor reads the string back to front (\<open>make_const_terminated_iterator_reverse\<close>).
  \<open>base\<close> turns a reverse cursor over \<open>text\<close> into the forward position right behind the
  unit the reverse cursor would read next, as \<open>std::reverse_iterator::base\<close> does.
\<close>

definition make_const_terminated_iterator_reverse :: "'a list \<Rightarrow> 'a cursor" where
  "make_const_terminated_iterator_reverse text = rev text"

definition base :: "'a list \<Rightarrow> 'a cursor \<Rightarrow> 'a cursor" where
  "base text itt_reverse = drop (length itt_reverse) text"

text \<open>
  A \<open>range\<close> of two terminated iterators is the pair of its begin and end cursor.
\<close>

type_synonym 'a range = "'a cursor \<times> 'a cursor"

section \<open>Core matching algorithms\<close>

text \<open>
  The loop commented \<open>Read both strings\<close> occurs verbatim in \<open>prefix_matches\<close>,
  \<open>full_match\<close>, \<open>find_forward_optimized\<close> and \<open>replace_all_copy_forward\<close>: both
  cursors advance in lockstep while neither is at its end and the comparer accepts
  the two current units.  It returns both cursors as the loop leaves them.
\<close>

fun read_both :: "('a \<Rightarrow> 'b \<Rightarrow> bool) \<Rightarrow> 'a cursor \<Rightarrow> 'b cursor \<Rightarrow> 'a cursor \<times> 'b cursor" where
  "read_both compare (x # xs) (y # ys) =
     (if compare x y then read_both compare xs ys else (x # xs, y # ys))"
| "read_both compare xs ys = (xs, ys)"

definition prefix_matches :: "'a cursor \<Rightarrow> 'b cursor \<Rightarrow> ('a \<Rightarrow> 'b \<Rightarrow> bool) \<Rightarrow> bool" where
  "prefix_matches itt_text itt_prefix compare =
     is_end_position (snd (read_both compare itt_text itt_prefix))"

definition full_match :: "'a cursor \<Rightarrow> 'b cursor \<Rightarrow> ('a \<Rightarrow> 'b \<Rightarrow> bool) \<Rightarrow> bool" where
  "full_match itt_text_lhs itt_text_rhs compare =
     (is_end_position (fst (read_both compare itt_text_lhs itt_text_rhs)) \<and>
      is_end_position (snd (read_both compare itt_text_lhs itt_text_rhs)))"

text \<open>
  The outer loop of \<open>find_forward_optimized\<close>.  Whenever its condition is tested the
  two inner cursors have just been reset to the outer text cursor and to the start of
  the contained string, so the loop state is the text cursor alone; the result is the
  triple \<open>(itt_text, itt_text_compare_loop, itt_contained_string_compare_loop)\<close> at
  loop exit.
\<close>

fun find_loop :: "('a \<Rightarrow> 'b \<Rightarrow> bool) \<Rightarrow> 'a cursor \<Rightarrow> 'b cursor \<Rightarrow> 'a cursor \<times> 'a cursor \<times> 'b cursor" where
  "find_loop compare [] itt_contained_string = ([], [], itt_contained_string)"
| "find_loop compare (x # xs) itt_contained_string =
     (case read_both compare (x # xs) itt_contained_string of
        (itt_text_compare_loop, itt_contained_string_compare_loop) \<Rightarrow>
          if is_end_position itt_contained_string_compare_loop \<or> is_end_position itt_text_compare_loop
          then (x # xs, itt_text_compare_loop, itt_contained_string_compare_loop)
          else find_loop compare xs itt_contained_string)"

definition find_forward_optimized :: "'a cursor \<Rightarrow> 'b cursor \<Rightarrow> ('a \<Rightarrow> 'b \<Rightarrow> bool) \<Rightarrow> 'a range" where
  "find_forward_optimized itt_text itt_contained_string compare =
     (case find_loop compare itt_text itt_contained_string of
        (itt_text', itt_text_compare_loop, itt_contained_string_compare_loop) \<Rightarrow>
          if is_end_position itt_contained_string_compare_loop
          then (itt_text', itt_text_compare_loop)
          else (itt_text_compare_loop, itt_text_compare_loop))"

text \<open>\<open>utility::equals_comparer\<close>.\<close>

definition equals_comparer :: "'a \<Rightarrow> 'a \<Rightarrow> bool" where
  "equals_comparer value_lhs value_rhs = (value_lhs = value_rhs)"

section \<open>Facade predicates\<close>

definition contains :: "'a list \<Rightarrow> 'b list \<Rightarrow> ('a \<Rightarrow> 'b \<Rightarrow> bool) \<Rightarrow> bool" where
  "contains text contained_string comparer =
     (is_end_position contained_string \<or>
      \<not> is_end_position (fst (find_forward_optimized text contained_string comparer)))"

section \<open>Errors\<close>

text \<open>\<open>std::invalid_argument\<close> with its message.\<close>

datatype error = invalid_argument string

section \<open>Replace\<close>

text \<open>
  \<open>implementation::replace_all_copy_forward\<close> appends to \<open>result\<close>.  With an empty
  \<open>text_to_be_replaced\<close> and a non-empty text its loop never advances, so the function is
  partial: \<open>None\<close> stands for a call that does not return.  The replacement is cast unit
  by unit to the unit type of the text; the model gives it that type.
\<close>

partial_function (option) replace_all_copy_forward ::
  "'a list \<Rightarrow> 'a cursor \<Rightarrow> 'b cursor \<Rightarrow> 'a cursor \<Rightarrow> ('a \<Rightarrow> 'b \<Rightarrow> bool) \<Rightarrow> 'a list option" where
  "replace_all_copy_forward result itt_text itt_text_to_be_replaced itt_text_to_replace_with compare =
     (case itt_text of
        [] \<Rightarrow> Some result
      | c # itt_text_next \<Rightarrow>
          if is_end_position (snd (read_both compare itt_text itt_text_to_be_replaced))
          then replace_all_copy_forward (result @ itt_text_to_replace_with)
                 (fst (read_both compare itt_text itt_text_to_be_replaced))
                 itt_text_to_be_replaced itt_text_to_replace_with compare
          else replace_all_copy_forward (result @ [c]) itt_text_next
                 itt_text_to_be_replaced itt_text_to_replace_with compare)"

declare replace_all_copy_forward.simps [code]

text \<open>
  \<open>implementation::replace_all_in_place_forward\<close>: the string object is passed in and
  the modified string object is returned.  \<open>resize\<close> is only called with a length not
  above the current one, so it is \<open>take\<close>.  This is the function for a pattern and a
  replacement that are strings of their own; for operands that lie in the storage of the
  string object that is modified see the section on that storage below.  The function
  asserts that the pattern is not empty; its only caller has checked that before.
\<close>

definition replace_all_in_place_forward ::
  "'a list \<Rightarrow> 'b cursor \<Rightarrow> 'a cursor \<Rightarrow> ('a \<Rightarrow> 'b \<Rightarrow> bool) \<Rightarrow> 'a list option" where
  "replace_all_in_place_forward text_to_modify_in_place itt_text_to_be_replaced itt_text_to_replace_with compare =
     (let itt_text = text_to_modify_in_place;
          first_range_to_be_replaced = find_forward_optimized itt_text itt_text_to_be_replaced compare
      in if \<not> is_end_position (fst first_range_to_be_replaced)
         then (let copied_tail = text_between (snd first_range_to_be_replaced) [];
                   clipped = take (distance (fst first_range_to_be_replaced) itt_text) text_to_modify_in_place
               in replace_all_copy_forward (clipped @ itt_text_to_replace_with) copied_tail
                    itt_text_to_be_replaced itt_text_to_replace_with compare)
         else Some text_to_modify_in_place)"

text \<open>
  The public \<open>replace_all_copy\<close>: the exception or the new string object.
\<close>

definition replace_all_copy ::
  "'a list \<Rightarrow> 'b list \<Rightarrow> 'a list \<Rightarrow> ('a \<Rightarrow> 'b \<Rightarrow> bool) \<Rightarrow> (error + 'a list) option" where
  "replace_all_copy text text_to_be_replaced text_to_replace_with comparer =
     (if is_end_position text_to_be_replaced
      then Some (Inl (invalid_argument ''The replace_all_copy input parameter text_to_be_replaced must not be empty.''))
      else map_option Inr
             (replace_all_copy_forward [] text text_to_be_replaced text_to_replace_with comparer))"

text \<open>
  The public \<open>replace_all_in_place\<close> works on the caller's string object: the result is
  the content of that object when the call is left, together with the exception if one
  was thrown.
\<close>

definition replace_all_in_place ::
  "'a list \<Rightarrow> 'b list \<Rightarrow> 'a list \<Rightarrow> ('a \<Rightarrow> 'b \<Rightarrow> bool) \<Rightarrow> ('a list \<times> error option) option" where
  "replace_all_in_place text text_to_be_replaced text_to_replace_with comparer =
     (if is_end_position text_to_be_replaced
      then Some (text, Some (invalid_argument ''The replace_all_in_place input parameter text_to_be_replaced must not be empty.''))
      else map_option (\<lambda>text'. (text', None))
             (replace_all_in_place_forward text text_to_be_replaced text_to_replace_with comparer))"

section \<open>Replace in place on the storage of the string object\<close>

text \<open>
  The value-level functions above take the pattern and the replacement as strings of
  their own.  The source reads both through cursors that stay alive while the string
  object is clipped and appended to, so an operand that lies in the storage of that
  very object (the object itself passed again, or a range of it) is read after the
  storage has changed.  This section models the same lines of the source on the storage
  of the string object.

  A string object owns a block of units: its content, the terminating null behind it,
  and spare room.  \<open>used\<close> is its size.
\<close>

record 'a string_object =
  storage :: "'a list"
  used :: nat

text \<open>
  The string the object holds.
\<close>

definition content :: "'a string_object \<Rightarrow> 'a list" where
  "content obj = take (used obj) (storage obj)"

text \<open>
  The object's invariant: the terminating null has its place behind the content.
\<close>

definition well_formed :: "'a \<Rightarrow> 'a string_object \<Rightarrow> bool" where
  "well_formed nul obj = (used obj < length (storage obj) \<and> storage obj ! used obj = nul)"

text \<open>
  \<open>resize\<close> to a size not above the current one, the only way the source calls it:
  the units stay where they are and the terminating null is written behind the new
  content.
\<close>

definition resize :: "'a \<Rightarrow> 'a string_object \<Rightarrow> nat \<Rightarrow> 'a string_object" where
  "resize nul obj n = obj\<lparr>storage := (storage obj)[n := nul], used := n\<rparr>"

text \<open>
  \<open>operator+=\<close> with one unit.  The state is the object together with a flag that
  tells whether the cursors made at the start of the call still point into its storage.
  While there is room the unit and the terminating null are written in place; otherwise
  the object moves to a new, larger block (how much larger is the implementation's
  choice) and the old block, into which those cursors point, is released.
\<close>

definition push_back :: "'a \<Rightarrow> 'a string_object \<times> bool \<Rightarrow> 'a \<Rightarrow> 'a string_object \<times> bool" where
  "push_back nul st c =
     (case st of (obj, live) \<Rightarrow>
        if used obj + 1 < length (storage obj)
        then (obj\<lparr>storage := (storage obj)[used obj := c, used obj + 1 := nul],
                  used := used obj + 1\<rparr>, live)
        else (\<lparr>storage = content obj @ [c, nul] @ replicate (used obj + 1) nul,
               used = used obj + 1\<rparr>, False))"

text \<open>
  A pattern or replacement operand: a string with storage of its own, or the units
  between two positions \<open>first_pos \<le> last_pos\<close> of the storage of the string object
  that is modified (an end-position-terminated cursor over it).
\<close>

datatype 'a operand = Own "'a list" | Shared nat nat

fun operand_is_end :: "'a operand \<Rightarrow> bool" where
  "operand_is_end (Own units) = is_end_position units"
| "operand_is_end (Shared first_pos last_pos) = (first_pos = last_pos)"

text \<open>
  The units a cursor over the operand reads when it runs over the operand now; \<open>None\<close>
  when it would read from a released block.
\<close>

fun operand_units :: "'a string_object \<times> bool \<Rightarrow> 'a operand \<Rightarrow> 'a list option" where
  "operand_units st (Own units) = Some units"
| "operand_units (obj, live) (Shared first_pos last_pos) =
     (if first_pos = last_pos then Some []
      else if live then Some (take (last_pos - first_pos) (drop first_pos (storage obj)))
      else None)"

text \<open>
  The loop that appends the replacement unit by unit.  A shared replacement is read
  from the storage as the preceding appends have left it.
\<close>

fun append_own :: "'a \<Rightarrow> 'a string_object \<times> bool \<Rightarrow> 'a cursor \<Rightarrow> 'a string_object \<times> bool" where
  "append_own nul st [] = st"
| "append_own nul st (c # itt) = append_own nul (push_back nul st c) itt"

function append_shared ::
  "'a \<Rightarrow> 'a string_object \<times> bool \<Rightarrow> nat \<Rightarrow> nat \<Rightarrow> ('a string_object \<times> bool) option" where
  "append_shared nul st first_pos last_pos =
     (if \<not> first_pos < last_pos then Some st
      else if \<not> snd st then None
      else append_shared nul (push_back nul st (storage (fst st) ! first_pos)) (Suc first_pos) last_pos)"
  by pat_completeness auto
termination
  by (relation "measure (\<lambda>(nul, st, first_pos, last_pos). last_pos - first_pos)") auto

declare append_shared.simps [simp del]

fun append_operand ::
  "'a \<Rightarrow> 'a string_object \<times> bool \<Rightarrow> 'a operand \<Rightarrow> ('a string_object \<times> bool) option" where
  "append_operand nul st (Own units) = Some (append_own nul st units)"
| "append_operand nul st (Shared first_pos last_pos) = append_shared nul st first_pos last_pos"

text \<open>
  What a call does: it returns, or it reads released storage, which is undefined behaviour.
\<close>

datatype 'a outcome = Returns 'a | Undefined_behaviour

text \<open>
  \<open>implementation::replace_all_copy_forward\<close> appending to the string object; the text
  it scans is the tail that was copied aside.  As above, \<open>None\<close> stands for a call that
  does not return.
\<close>

partial_function (option) replace_all_copy_forward_storage ::
  "'a \<Rightarrow> 'a string_object \<times> bool \<Rightarrow> 'a cursor \<Rightarrow> 'a operand \<Rightarrow> 'a operand \<Rightarrow>
   ('a \<Rightarrow> 'a \<Rightarrow> bool) \<Rightarrow> 'a string_object outcome option" where
  "replace_all_copy_forward_storage nul result itt_text itt_text_to_be_replaced
       itt_text_to_replace_with compare =
     (case itt_text of
        [] \<Rightarrow> Some (Returns (fst result))
      | c # itt_text_next \<Rightarrow>
          (case operand_units result itt_text_to_be_replaced of
             None \<Rightarrow> Some Undefined_behaviour
           | Some pattern \<Rightarrow>
               if is_end_position (snd (read_both compare itt_text pattern))
               then (case append_operand nul result itt_text_to_replace_with of
                       None \<Rightarrow> Some Undefined_behaviour
                     | Some result' \<Rightarrow>
                         replace_all_copy_forward_storage nul result'
                           (fst (read_both compare itt_text pattern))
                           itt_text_to_be_replaced itt_text_to_replace_with compare)
               else replace_all_copy_forward_storage nul (push_back nul result c) itt_text_next
                      itt_text_to_be_replaced itt_text_to_replace_with compare))"

declare replace_all_copy_forward_storage.simps [code]

text \<open>
  \<open>implementation::replace_all_in_place_forward\<close> on the storage: the search runs before
  any write, then the tail is copied aside, the object is clipped, and the replacement
  and the rest are appended.
\<close>

definition replace_all_in_place_forward_storage ::
  "'a \<Rightarrow> 'a string_object \<Rightarrow> 'a operand \<Rightarrow> 'a operand \<Rightarrow> ('a \<Rightarrow> 'a \<Rightarrow> bool) \<Rightarrow>
   'a string_object outcome option" where
  "replace_all_in_place_forward_storage nul text_to_modify_in_place itt_text_to_be_replaced
       itt_text_to_replace_with compare =
     (case operand_units (text_to_modify_in_place, True) itt_text_to_be_replaced of
        None \<Rightarrow> Some Undefined_behaviour
      | Some pattern \<Rightarrow>
          (let itt_text = content text_to_modify_in_place;
               first_range_to_be_replaced = find_forward_optimized itt_text pattern compare
           in if \<not> is_end_position (fst first_range_to_be_replaced)
              then (let copied_tail = text_between (snd first_range_to_be_replaced) [];
                        clipped = resize nul text_to_modify_in_place
                                    (distance (fst first_range_to_be_replaced) itt_text)
                    in case append_operand nul (clipped, True) itt_text_to_replace_with of
                         None \<Rightarrow> Some Undefined_behaviour
                       | Some result \<Rightarrow>
                           replace_all_copy_forward_storage nul result copied_tail
                             itt_text_to_be_replaced itt_text_to_replace_with compare)
              else Some (Returns text_to_modify_in_place)))"

text \<open>
  The public \<open>replace_all_in_place\<close> on the storage.
\<close>

definition replace_all_in_place_storage ::
  "'a \<Rightarrow> 'a string_object \<Rightarrow> 'a operand \<Rightarrow> 'a operand \<Rightarrow> ('a \<Rightarrow> 'a \<Rightarrow> bool) \<Rightarrow>
   ('a string_object \<times> error option) outcome option" where
  "replace_all_in_place_storage nul text text_to_be_replaced text_to_replace_with comparer =
     (if operand_is_end text_to_be_replaced
      then Some (Returns (text, Some (invalid_argument ''The replace_all_in_place input parameter text_to_be_replaced must not be empty.'')))
      else map_option (\<lambda>r. case r of Returns text' \<Rightarrow> Returns (text', None)
                                   | Undefined_behaviour \<Rightarrow> Undefined_behaviour)
             (replace_all_in_place_forward_storage nul text text_to_be_replaced
                text_to_replace_with comparer))"

text \<open>
  A string object that holds a short string in a block of sixteen units, as a small
  string buffer does.
\<close>

definition short_string :: "string \<Rightarrow> char string_object" where
  "short_string s = \<lparr>storage = s @ replicate (16 - length s) (CHR 0x00), used = length s\<rparr>"

section \<open>Trim\<close>

text \<open>
  A locale is consulted only through its character classification; \<open>utility::is_space\<close>
  keeps a locale object and asks it.  The overloads without a predicate construct
  \<open>is_space\<close> from the global locale, which the model receives as a parameter.
\<close>

record 'a std_locale =
  isspace :: "'a \<Rightarrow> bool"

definition is_space :: "'a std_locale \<Rightarrow> 'a \<Rightarrow> bool" where
  "is_space locale_object v = isspace locale_object v"

fun trim_iterator :: "'a cursor \<Rightarrow> ('a \<Rightarrow> bool) \<Rightarrow> 'a cursor" where
  "trim_iterator [] is_something = []"
| "trim_iterator (x # xs) is_something =
     (if is_something x then trim_iterator xs is_something else x # xs)"

text \<open>\<open>implementation::trim_copy\<close> for string objects.\<close>

definition implementation_trim_copy :: "'a list \<Rightarrow> ('a \<Rightarrow> bool) \<Rightarrow> bool \<Rightarrow> bool \<Rightarrow> 'a list" where
  "implementation_trim_copy text is_something trim_start_enable trim_end_enable =
     (let itt_text_start = (if trim_start_enable then trim_iterator text is_something else text)
      in if \<not> is_end_position itt_text_start
         then (let itt_text_end =
                     (if trim_end_enable
                      then trim_iterator (make_const_terminated_iterator_reverse text) is_something
                      else make_const_terminated_iterator_reverse text)
               in text_between itt_text_start (base text itt_text_end))
         else text_between itt_text_start [])"

text \<open>The overloads of \<open>trim_copy\<close>, \<open>trim_start_copy\<close> and \<open>trim_end_copy\<close> without a predicate.\<close>

definition trim_copy :: "'a std_locale \<Rightarrow> 'a list \<Rightarrow> 'a list" where
  "trim_copy global_locale text = implementation_trim_copy text (is_space global_locale) True True"

definition trim_start_copy :: "'a std_locale \<Rightarrow> 'a list \<Rightarrow> 'a list" where
  "trim_start_copy global_locale text = implementation_trim_copy text (is_space global_locale) True False"

definition trim_end_copy :: "'a std_locale \<Rightarrow> 'a list \<Rightarrow> 'a list" where
  "trim_end_copy global_locale text = implementation_trim_copy text (is_space global_locale) False True"

section \<open>Split on a separator token\<close>

datatype split_mode = all | skip_empty

record ('a, 'b) split_token_iterator =
  comparer :: "'a \<Rightarrow> 'b \<Rightarrow> bool"
  itt_text :: "'a cursor"
  itt_separator :: "'b cursor"
  current_separator :: "'a range"
  current_range :: "'a range"
  used_mode :: split_mode
  is_end :: bool

text \<open>
  The private \<open>advance()\<close>.  Its loop runs again only in mode \<open>skip_empty\<close> on an empty
  section; with an empty separator that can go on for ever, hence the option.
\<close>

partial_function (option) advance ::
  "('a, 'b) split_token_iterator \<Rightarrow> ('a, 'b) split_token_iterator option" where
  "advance it =
     (if is_end it then Some it
      else (let it1 = it\<lparr>is_end := is_end_position (fst (current_separator it))\<rparr>;
                it2 = it1\<lparr>itt_text := snd (current_separator it1)\<rparr>;
                it3 = it2\<lparr>current_separator :=
                        find_forward_optimized (itt_text it2) (itt_separator it2) (comparer it2)\<rparr>;
                it4 = it3\<lparr>current_range := (itt_text it3, fst (current_separator it3))\<rparr>
            in if used_mode it4 = skip_empty \<and> same_position (fst (current_separator it4)) (itt_text it4)
               then advance it4
               else Some it4))"

declare advance.simps [code]

text \<open>
  The constructor.  The default-constructed \<open>current_range\<close> holds no position yet; it
  is written before it can be read.
\<close>

definition make_split_token_iterator ::
  "'a list \<Rightarrow> 'b list \<Rightarrow> split_mode \<Rightarrow> ('a \<Rightarrow> 'b \<Rightarrow> bool) \<Rightarrow> (error + ('a, 'b) split_token_iterator) option" where
  "make_split_token_iterator text_to_iterate_over separator_token mode equals_comparer' =
     (let it = \<lparr>comparer = equals_comparer', itt_text = text_to_iterate_over,
                itt_separator = separator_token,
                current_separator = (text_to_iterate_over, text_to_iterate_over),
                current_range = ([], []), used_mode = mode, is_end = False\<rparr>
      in if is_end_position (itt_separator it)
         then Some (Inl (invalid_argument ''The separator_token input parameter for the split_token_iterator must not be empty.''))
         else if \<not> is_end_position (itt_text it) \<or> mode = skip_empty
         then map_option Inr (advance it)
         else Some (Inr (it\<lparr>current_range := (itt_text it, itt_text it)\<rparr>)))"

text \<open>
  The loop of \<open>split_token\<close>: while the iterator is not at its end, the current range is
  appended to the container as a new string object and the iterator is incremented.
\<close>

partial_function (option) split_token_loop ::
  "'a list list \<Rightarrow> ('a, 'b) split_token_iterator \<Rightarrow> 'a list list option" where
  "split_token_loop container split_it =
     (if is_end split_it then Some container
      else Option.bind (advance split_it)
             (split_token_loop
                (container @ [text_between (fst (current_range split_it)) (snd (current_range split_it))])))"

declare split_token_loop.simps [code]

text \<open>
  \<open>split_token\<close> fills the caller's container: the result is the container when the call
  is left, together with the exception if one was thrown.
\<close>

definition split_token ::
  "'a list list \<Rightarrow> 'a list \<Rightarrow> 'b list \<Rightarrow> split_mode \<Rightarrow> ('a \<Rightarrow> 'b \<Rightarrow> bool) \<Rightarrow> bool \<Rightarrow>
   ('a list list \<times> error option) option" where
  "split_token container text_to_iterate_over separator_token mode equals_comparer' clear_container =
     (let container1 = (if clear_container then [] else container)
      in case make_split_token_iterator text_to_iterate_over separator_token mode equals_comparer' of
           None \<Rightarrow> None
         | Some (Inl e) \<Rightarrow> Some (container1, Some e)
         | Some (Inr split_it) \<Rightarrow>
             map_option (\<lambda>container2. (container2, None)) (split_token_loop container1 split_it))"

section \<open>Copy and join\<close>

text \<open>The loop of \<open>copy\<close> pushes the units of the source onto the target one by one.\<close>

fun copy_loop :: "'a list \<Rightarrow> 'a cursor \<Rightarrow> 'a list" where
  "copy_loop target [] = target"
| "copy_loop target (c # itt) = copy_loop (target @ [c]) itt"

definition copy :: "'a list \<Rightarrow> 'a list \<Rightarrow> bool \<Rightarrow> 'a list" where
  "copy target text_to_copy clear_target =
     copy_loop (if clear_target then [] else target) text_to_copy"

fun join_loop :: "'a list \<Rightarrow> bool \<Rightarrow> 'a list list \<Rightarrow> 'a list \<Rightarrow> 'a list" where
  "join_loop target is_first [] separator = target"
| "join_loop target is_first (item # container) separator =
     (if is_first
      then join_loop (copy target item False) False container separator
      else join_loop (copy (copy target separator False) item False) False container separator)"

definition join :: "'a list \<Rightarrow> 'a list list \<Rightarrow> 'a list \<Rightarrow> bool \<Rightarrow> 'a list" where
  "join target container separator clear_target =
     join_loop (if clear_target then [] else target) True container separator"

section \<open>A concrete locale\<close>

text \<open>
  The classic \<open>C\<close> locale of the standard library, as far as \<open>isspace\<close> goes: space,
  horizontal tab, line feed, vertical tab, form feed and carriage return.  It serves as
  the global locale of the concrete examples.
\<close>

definition classic_locale :: "char std_locale" where
  "classic_locale = \<lparr>isspace = (\<lambda>c. c \<in> set [CHR '' '', CHR 0x09, CHR 0x0A, CHR 0x0B, CHR 0x0C, CHR 0x0D])\<rparr>"

section \<open>Specification vocabulary\<close>

text \<open>
  The pattern \<open>pat\<close> occurs in \<open>text\<close> at index \<open>i\<close> under a comparer when the
  \<open>length pat\<close> units of \<open>text\<close> from \<open>i\<close> on exist and match \<open>pat\<close> unit by unit.
\<close>

definition occurs_at :: "('a \<Rightarrow> 'b \<Rightarrow> bool) \<Rightarrow> 'a list \<Rightarrow> 'b list \<Rightarrow> nat \<Rightarrow> bool" where
  "occurs_at compare text pat i =
     (i + length pat \<le> length text \<and> list_all2 compare (take (length pat) (drop i text)) pat)"

text \<open>
  The sections of a text \<open>u\<close> for a separator: \<open>u\<close> itself when the forward search
  finds no separator in it, otherwise the text in front of the separator found, followed
  by the sections of the text behind that separator.  (The length test only makes the
  recursion well-founded for an empty separator; it never fires for a non-empty one.)
\<close>

function sections :: "('a \<Rightarrow> 'b \<Rightarrow> bool) \<Rightarrow> 'b list \<Rightarrow> 'a list \<Rightarrow> 'a list list" where
  "sections compare sep u =
     (if fst (find_forward_optimized u sep compare) = [] \<or>
         length u \<le> length (snd (find_forward_optimized u sep compare))
      then [u]
      else text_between u (fst (find_forward_optimized u sep compare)) #
           sections compare sep (snd (find_forward_optimized u sep compare)))"
  by pat_completeness auto
termination
  by (relation "measure (\<lambda>(compare, sep, u). length u)") auto

declare sections.simps [simp del]

section \<open>Facts about the matching loops\<close>

lemma read_both_snd_Nil:
  "snd (read_both compare xs ys) = [] \<longleftrightarrow>
     length ys \<le> length xs \<and> list_all2 compare (take (length ys) xs) ys"
  by (induction compare xs ys rule: read_both.induct) auto

lemma read_both_fst_of_match:
  "snd (read_both compare xs ys) = [] \<Longrightarrow> fst (read_both compare xs ys) = drop (length ys) xs"
  by (induction compare xs ys rule: read_both.induct) (auto split: if_splits)

lemma read_both_text_exhausted:
  "fst (read_both compare xs ys) = [] \<Longrightarrow> snd (read_both compare xs ys) \<noteq> [] \<Longrightarrow> length xs < length ys"
  by (induction compare xs ys rule: read_both.induct) (auto split: if_splits)

lemma full_match_list_all2: "full_match xs ys compare \<longleftrightarrow> list_all2 compare xs ys"
  unfolding full_match_def is_end_position_def
  by (induction compare xs ys rule: read_both.induct) auto

lemma prefix_matches_occurs_at:
  "i \<le> length text \<Longrightarrow> prefix_matches (drop i text) pat compare \<longleftrightarrow> occurs_at compare text pat i"
  unfolding prefix_matches_def is_end_position_def occurs_at_def read_both_snd_Nil
  by auto

lemma occurs_at_Cons: "occurs_at compare (x # xs) pat (Suc k) = occurs_at compare xs pat k"
  by (simp add: occurs_at_def)

lemma find_loop_Cons:
  "find_loop compare (x # xs) pat =
     (if snd (read_both compare (x # xs) pat) = [] \<or> fst (read_both compare (x # xs) pat) = []
      then (x # xs, fst (read_both compare (x # xs) pat), snd (read_both compare (x # xs) pat))
      else find_loop compare xs pat)"
  by (simp add: is_end_position_def split: prod.splits)

declare find_loop.simps(2) [simp del]

lemma find_loop_found:
  "occurs_at compare text pat i \<Longrightarrow> \<forall>k<i. \<not> occurs_at compare text pat k \<Longrightarrow>
   find_loop compare text pat = (drop i text, drop (i + length pat) text, [])"
proof (induction "text" arbitrary: i)
  case Nil
  then show ?case by (simp add: occurs_at_def)
next
  case (Cons x xs)
  show ?case
  proof (cases i)
    case 0
    with Cons.prems(1) have m: "snd (read_both compare (x # xs) pat) = []"
      using prefix_matches_occurs_at[of 0 "x # xs" pat compare]
      by (simp add: prefix_matches_def is_end_position_def)
    then have "fst (read_both compare (x # xs) pat) = drop (length pat) (x # xs)"
      by (rule read_both_fst_of_match)
    with m 0 show ?thesis
      by (simp add: find_loop_Cons)
  next
    case (Suc j)
    from Cons.prems(2) Suc have no0: "\<not> occurs_at compare (x # xs) pat 0" by simp
    then have n1: "snd (read_both compare (x # xs) pat) \<noteq> []"
      using prefix_matches_occurs_at[of 0 "x # xs" pat compare]
      by (simp add: prefix_matches_def is_end_position_def)
    from Cons.prems(1) Suc have len: "length pat \<le> length xs"
      by (simp add: occurs_at_def)
    have n2: "fst (read_both compare (x # xs) pat) \<noteq> []"
      using read_both_text_exhausted[of compare "x # xs" pat] n1 len by auto
    have oj: "occurs_at compare xs pat j"
      using Cons.prems(1) Suc by (simp add: occurs_at_Cons)
    have lj: "\<forall>k<j. \<not> occurs_at compare xs pat k"
      using Cons.prems(2) Suc occurs_at_Cons[of compare x xs pat] by auto
    from Cons.IH[OF oj lj] n1 n2 Suc show ?thesis
      by (simp add: find_loop_Cons)
  qed
qed

lemma find_loop_not_found:
  "\<forall>k. \<not> occurs_at compare text pat k \<Longrightarrow>
   fst (snd (find_loop compare text pat)) = [] \<and> snd (snd (find_loop compare text pat)) \<noteq> []"
proof (induction "text")
  case Nil
  then have "pat \<noteq> []" by (auto simp: occurs_at_def)
  then show ?case by simp
next
  case (Cons x xs)
  from Cons.prems have no0: "\<not> occurs_at compare (x # xs) pat 0" by simp
  then have n1: "snd (read_both compare (x # xs) pat) \<noteq> []"
    using prefix_matches_occurs_at[of 0 "x # xs" pat compare]
    by (simp add: prefix_matches_def is_end_position_def)
  have nx: "\<forall>k. \<not> occurs_at compare xs pat k"
    using Cons.prems occurs_at_Cons[of compare x xs pat] by auto
  from Cons.IH[OF nx] n1 show ?case
    by (simp add: find_loop_Cons)
qed

lemma find_forward_optimized_found:
  "occurs_at compare text pat i \<Longrightarrow> \<forall>k<i. \<not> occurs_at compare text pat k \<Longrightarrow>
   find_forward_optimized text pat compare = (drop i text, drop (i + length pat) text)"
  by (simp add: find_forward_optimized_def find_loop_found is_end_position_def)

lemma find_forward_optimized_not_found:
  assumes "\<forall>k. \<not> occurs_at compare text pat k"
  shows "find_forward_optimized text pat compare = ([], [])"
proof -
  obtain a b c where f: "find_loop compare text pat = (a, b, c)"
    by (cases "find_loop compare text pat") auto
  with find_loop_not_found[OF assms] have "b = []" "c \<noteq> []" by auto
  with f show ?thesis
    by (simp add: find_forward_optimized_def is_end_position_def)
qed

lemma occurs_at_least:
  "occurs_at compare text pat i \<Longrightarrow>
   \<exists>j\<le>i. occurs_at compare text pat j \<and> (\<forall>k<j. \<not> occurs_at compare text pat k)"
proof -
  assume a: "occurs_at compare text pat i"
  let ?j = "LEAST j. occurs_at compare text pat j"
  have "occurs_at compare text pat ?j" using a by (rule LeastI)
  moreover have "?j \<le> i" using a by (rule Least_le)
  moreover have "\<forall>k<?j. \<not> occurs_at compare text pat k" using not_less_Least by blast
  ultimately show ?thesis by blast
qed

lemma contains_iff_occurs:
  "contains text pat compare \<longleftrightarrow> (\<exists>i. occurs_at compare text pat i)"
proof (cases "pat = []")
  case True
  then show ?thesis by (auto simp: contains_def is_end_position_def occurs_at_def intro: exI[of _ 0])
next
  case False
  show ?thesis
  proof
    assume c: "contains text pat compare"
    show "\<exists>i. occurs_at compare text pat i"
    proof (rule ccontr)
      assume "\<not> ?thesis"
      then have "find_forward_optimized text pat compare = ([], [])"
        by (intro find_forward_optimized_not_found) simp
      with c False show False by (simp add: contains_def is_end_position_def)
    qed
  next
    assume "\<exists>i. occurs_at compare text pat i"
    then obtain i where "occurs_at compare text pat i" ..
    from occurs_at_least[OF this] obtain j where
      j: "occurs_at compare text pat j" "\<forall>k<j. \<not> occurs_at compare text pat k" by blast
    from j(1) False have "j < length text"
      by (cases pat) (auto simp: occurs_at_def)
    with find_forward_optimized_found[OF j] show "contains text pat compare"
      by (simp add: contains_def is_end_position_def)
  qed
qed

lemma occurs_at_sublist:
  "(\<exists>i j. i \<le> j \<and> j \<le> length T \<and> full_match (take (j - i) (drop i T)) P compare)
     \<longleftrightarrow> (\<exists>i. occurs_at compare T P i)"
proof
  assume "\<exists>i j. i \<le> j \<and> j \<le> length T \<and> full_match (take (j - i) (drop i T)) P compare"
  then obtain i j where ij: "i \<le> j" "j \<le> length T"
    and m: "list_all2 compare (take (j - i) (drop i T)) P"
    by (auto simp: full_match_list_all2)
  from m have "length (take (j - i) (drop i T)) = length P"
    by (rule list_all2_lengthD)
  with ij have "j - i = length P" by simp
  with ij m have "occurs_at compare T P i" by (simp add: occurs_at_def)
  then show "\<exists>i. occurs_at compare T P i" ..
next
  assume "\<exists>i. occurs_at compare T P i"
  then obtain i where o: "occurs_at compare T P i" ..
  then have "i \<le> i + length P \<and> i + length P \<le> length T \<and>
             full_match (take (i + length P - i) (drop i T)) P compare"
    by (simp add: occurs_at_def full_match_list_all2)
  then show "\<exists>i j. i \<le> j \<and> j \<le> length T \<and> full_match (take (j - i) (drop i T)) P compare"
    by blast
qed

section \<open>Claims about containment\<close>

text \<open>
  Claim C1.  For every text \<open>T\<close>, every pattern \<open>P\<close> and every comparer,
  \<open>contains T P comparer\<close> is true exactly when some contiguous index range
  \<open>[i, j)\<close> of \<open>T\<close> full-matches \<open>P\<close> under that comparer.  An empty pattern is always
  contained; \<open>Hello World\<close> contains \<open>ello\<close> and does not contain \<open>ella\<close>, \<open>Hello\<close>
  contains the empty string, and the empty string contains the empty string.
\<close>

theorem contains_iff_range_full_match:
  "(contains T P compare \<longleftrightarrow>
      (\<exists>i j. i \<le> j \<and> j \<le> length T \<and> full_match (take (j - i) (drop i T)) P compare))
   \<and> contains T [] compare
   \<and> contains ''Hello World'' ''ello'' equals_comparer
   \<and> \<not> contains ''Hello World'' ''ella'' equals_comparer
   \<and> contains ''Hello'' ([]::string) equals_comparer
   \<and> contains ([]::string) ([]::string) equals_comparer"
proof -
  have a: "contains T P compare \<longleftrightarrow>
      (\<exists>i j. i \<le> j \<and> j \<le> length T \<and> full_match (take (j - i) (drop i T)) P compare)"
    by (simp only: contains_iff_occurs occurs_at_sublist)
  have b: "contains T [] compare" by (simp add: contains_def is_end_position_def)
  have c: "contains ''Hello World'' ''ello'' equals_comparer" by code_simp
  have d: "\<not> contains ''Hello World'' ''ella'' equals_comparer" by code_simp
  have e: "contains ''Hello'' ([]::string) equals_comparer" by code_simp
  have f: "contains ([]::string) ([]::string) equals_comparer" by code_simp
  from a b c d e f show ?thesis by blast
qed

theorem contains_iff_range_full_match_witness:
  "contains ''abcab'' ''ca'' equals_comparer \<and>
   (\<exists>i j. i \<le> j \<and> j \<le> length ''abcab'' \<and>
      full_match (take (j - i) (drop i ''abcab'')) ''ca'' equals_comparer)"
proof -
  have c: "contains ''abcab'' ''ca'' equals_comparer" by code_simp
  with contains_iff_range_full_match[of "''abcab''" "''ca''" equals_comparer]
  show ?thesis by blast
qed

section \<open>Claims about the forward search\<close>

text \<open>
  Claim C8, as amended.  For every text cursor, every pattern and every comparer:
  when the pattern occurs, \<open>find_forward_optimized\<close> returns the half-open range from
  the start to the end of its leftmost occurrence; when the pattern does not occur, it
  returns the empty range at the end of the text.  For a non-empty pattern the begin
  of the returned range is at the end of the text exactly when the pattern does not
  occur, so there \<open>begin is at end\<close> is the not-found signal.
\<close>

theorem find_forward_optimized_leftmost:
  "(occurs_at compare T P i \<and> (\<forall>k<i. \<not> occurs_at compare T P k) \<longrightarrow>
      find_forward_optimized T P compare = (drop i T, drop (i + length P) T))
   \<and> ((\<forall>k. \<not> occurs_at compare T P k) \<longrightarrow>
      find_forward_optimized T P compare = ([], []))
   \<and> (P \<noteq> [] \<longrightarrow>
      (is_end_position (fst (find_forward_optimized T P compare)) \<longleftrightarrow>
         (\<forall>k. \<not> occurs_at compare T P k)))"
proof -
  have c: "is_end_position (fst (find_forward_optimized T P compare)) \<longleftrightarrow>
         (\<forall>k. \<not> occurs_at compare T P k)" if "P \<noteq> []"
    using contains_iff_occurs[of T P compare] that
    by (auto simp add: contains_def is_end_position_def)
  show ?thesis
    using find_forward_optimized_found[of compare T P i]
      find_forward_optimized_not_found[of compare T P] c
    by blast
qed

theorem find_forward_optimized_leftmost_witness:
  "find_forward_optimized ''Hello World'' ''lo'' equals_comparer = (''lo World'', '' World'')
   \<and> find_forward_optimized ''Hello World'' ''xy'' equals_comparer = ([], [])
   \<and> is_end_position (fst (find_forward_optimized ''Hello World'' ''xy'' equals_comparer))"
proof -
  have o: "occurs_at equals_comparer ''Hello World'' ''lo'' 3" by code_simp
  have n0: "\<not> occurs_at equals_comparer ''Hello World'' ''lo'' 0" by code_simp
  have n1: "\<not> occurs_at equals_comparer ''Hello World'' ''lo'' 1" by code_simp
  have n2: "\<not> occurs_at equals_comparer ''Hello World'' ''lo'' 2" by code_simp
  have l: "\<forall>k<3. \<not> occurs_at equals_comparer ''Hello World'' ''lo'' k"
  proof (intro allI impI)
    fix k :: nat assume "k < 3"
    then have "k = 0 \<or> k = 1 \<or> k = 2" by arith
    with n0 n1 n2 show "\<not> occurs_at equals_comparer ''Hello World'' ''lo'' k" by auto
  qed
  have nc: "\<not> contains ''Hello World'' ''xy'' equals_comparer" by code_simp
  then have none: "\<forall>k. \<not> occurs_at equals_comparer ''Hello World'' ''xy'' k"
    by (simp add: contains_iff_occurs)
  from find_forward_optimized_leftmost[of equals_comparer "''Hello World''" "''lo''" 3] o l
  have a: "find_forward_optimized ''Hello World'' ''lo'' equals_comparer = (''lo World'', '' World'')"
    by simp
  from find_forward_optimized_leftmost[of equals_comparer "''Hello World''" "''xy''" 0] none
  have b: "find_forward_optimized ''Hello World'' ''xy'' equals_comparer = ([], [])
     \<and> is_end_position (fst (find_forward_optimized ''Hello World'' ''xy'' equals_comparer))"
    by (simp add: is_end_position_def)
  from a b show ?thesis by blast
qed

text \<open>
  Claim C8 as stated takes \<open>begin is at end\<close> for the not-found signal with every
  pattern.  On an exhausted text cursor the empty pattern is found (the function takes
  its success branch with the empty range at the cursor), and the begin of that range
  is at the end.
\<close>

theorem find_forward_optimized_signal_counterexample:
  "is_end_position (fst (find_forward_optimized ([]::string) ([]::string) equals_comparer))
   \<and> occurs_at equals_comparer ([]::string) ([]::string) 0"
  by (simp add: find_forward_optimized_def is_end_position_def occurs_at_def)

section \<open>Facts about the replace loop\<close>

lemma replace_forward_Nil:
  "replace_all_copy_forward res [] P R compare = Some res"
  by (subst replace_all_copy_forward.simps) simp

lemma replace_forward_match:
  assumes "snd (read_both compare (c # text) P) = []"
  shows "replace_all_copy_forward res (c # text) P R compare =
         replace_all_copy_forward (res @ R) (drop (length P) (c # text)) P R compare"
  using assms
  by (subst replace_all_copy_forward.simps)
     (simp add: is_end_position_def read_both_fst_of_match)

lemma replace_forward_no_match:
  assumes "snd (read_both compare (c # text) P) \<noteq> []"
  shows "replace_all_copy_forward res (c # text) P R compare =
         replace_all_copy_forward (res @ [c]) text P R compare"
  using assms
  by (subst replace_all_copy_forward.simps) (simp add: is_end_position_def)

lemma occurs_at_0_read_both:
  "occurs_at compare text P 0 \<longleftrightarrow> snd (read_both compare text P) = []"
  using prefix_matches_occurs_at[of 0 "text" P compare]
  by (simp add: prefix_matches_def is_end_position_def)

lemma replace_forward_none:
  "\<forall>k. \<not> occurs_at compare text P k \<Longrightarrow>
   replace_all_copy_forward res text P R compare = Some (res @ text)"
proof (induction "text" arbitrary: res)
  case Nil
  show ?case by (simp add: replace_forward_Nil)
next
  case (Cons c cs)
  from Cons.prems have "\<not> occurs_at compare (c # cs) P 0" by simp
  then have n: "snd (read_both compare (c # cs) P) \<noteq> []"
    by (simp add: occurs_at_0_read_both)
  have "\<forall>k. \<not> occurs_at compare cs P k"
    using Cons.prems occurs_at_Cons[of compare c cs P] by auto
  from Cons.IH[OF this, of "res @ [c]"] replace_forward_no_match[OF n, of res R]
  show ?case by simp
qed

lemma replace_forward_leftmost:
  "P \<noteq> [] \<Longrightarrow> occurs_at compare text P i \<Longrightarrow> \<forall>k<i. \<not> occurs_at compare text P k \<Longrightarrow>
   replace_all_copy_forward res text P R compare =
   replace_all_copy_forward (res @ take i text @ R) (drop (i + length P) text) P R compare"
proof (induction "text" arbitrary: res i)
  case Nil
  then show ?case by (simp add: occurs_at_def)
next
  case (Cons c cs)
  show ?case
  proof (cases i)
    case 0
    with Cons.prems(2) have "snd (read_both compare (c # cs) P) = []"
      by (simp add: occurs_at_0_read_both)
    from replace_forward_match[OF this, of res R] 0 show ?thesis by simp
  next
    case (Suc j)
    with Cons.prems(3) have "\<not> occurs_at compare (c # cs) P 0" by simp
    then have n: "snd (read_both compare (c # cs) P) \<noteq> []"
      by (simp add: occurs_at_0_read_both)
    have oj: "occurs_at compare cs P j"
      using Cons.prems(2) Suc by (simp add: occurs_at_Cons)
    have lj: "\<forall>k<j. \<not> occurs_at compare cs P k"
      using Cons.prems(3) Suc occurs_at_Cons[of compare c cs P] by auto
    from Cons.IH[OF Cons.prems(1) oj lj, of "res @ [c]"] replace_forward_no_match[OF n, of res R] Suc
    show ?thesis by simp
  qed
qed

lemma replace_forward_total:
  "P \<noteq> [] \<Longrightarrow> \<exists>out. \<forall>res. replace_all_copy_forward res text P R compare = Some (res @ out)"
proof (induction "length text" arbitrary: "text" rule: less_induct)
  case less
  show ?case
  proof (cases "\<exists>i. occurs_at compare text P i")
    case False
    then have "\<forall>res. replace_all_copy_forward res text P R compare = Some (res @ text)"
      by (simp add: replace_forward_none)
    then show ?thesis by blast
  next
    case True
    then obtain i0 where "occurs_at compare text P i0" ..
    from occurs_at_least[OF this] obtain i where
      i: "occurs_at compare text P i" "\<forall>k<i. \<not> occurs_at compare text P k" by blast
    from i(1) less.prems have "length (drop (i + length P) text) < length text"
      by (cases P) (auto simp: occurs_at_def)
    from less.hyps[OF this less.prems] obtain out where
      out: "\<forall>res. replace_all_copy_forward res (drop (i + length P) text) P R compare = Some (res @ out)"
      by blast
    have "\<forall>res. replace_all_copy_forward res text P R compare = Some (res @ (take i text @ R @ out))"
      using replace_forward_leftmost[OF less.prems i] out by simp
    then show ?thesis by blast
  qed
qed

lemma replace_all_copy_nonempty:
  "P \<noteq> [] \<Longrightarrow> replace_all_copy T P R compare =
     map_option Inr (replace_all_copy_forward [] T P R compare)"
  by (simp add: replace_all_copy_def is_end_position_def)

lemma list_all2_equals_comparer: "list_all2 equals_comparer xs ys \<longleftrightarrow> xs = ys"
proof -
  have e: "equals_comparer = (=)" by (intro ext) (simp add: equals_comparer_def)
  show ?thesis unfolding e by (rule list_all2_eq[symmetric])
qed

lemma occurs_at_equals_split:
  assumes "occurs_at equals_comparer T P i"
  shows "take i T @ P @ drop (i + length P) T = T"
proof -
  from assms have "take (length P) (drop i T) = P"
    by (simp add: occurs_at_def list_all2_equals_comparer)
  then have "P @ drop (length P) (drop i T) = drop i T"
    by (metis append_take_drop_id)
  then have "take i T @ P @ drop (i + length P) T = take i T @ drop i T"
    by (simp add: add.commute)
  then show ?thesis by simp
qed

lemma replace_forward_same:
  "P \<noteq> [] \<Longrightarrow> replace_all_copy_forward res T P P equals_comparer = Some (res @ T)"
proof (induction "length T" arbitrary: T res rule: less_induct)
  case less
  show ?case
  proof (cases "\<exists>i. occurs_at equals_comparer T P i")
    case False
    then show ?thesis by (simp add: replace_forward_none)
  next
    case True
    then obtain i0 where "occurs_at equals_comparer T P i0" ..
    from occurs_at_least[OF this] obtain i where
      i: "occurs_at equals_comparer T P i" "\<forall>k<i. \<not> occurs_at equals_comparer T P k" by blast
    from i(1) less.prems have "length (drop (i + length P) T) < length T"
      by (cases P) (auto simp: occurs_at_def)
    from less.hyps[OF this less.prems, of "res @ take i T @ P"]
      replace_forward_leftmost[OF less.prems i, of res P] occurs_at_equals_split[OF i(1)]
    show ?thesis by simp
  qed
qed

lemma replace_all_in_place_forward_is_copy:
  assumes p: "P \<noteq> []"
  shows "replace_all_in_place_forward T P R compare = replace_all_copy_forward [] T P R compare"
proof (cases "\<exists>i. occurs_at compare T P i")
  case False
  then have "find_forward_optimized T P compare = ([], [])"
    by (intro find_forward_optimized_not_found) simp
  with False show ?thesis
    by (simp add: replace_all_in_place_forward_def is_end_position_def replace_forward_none)
next
  case True
  then obtain i0 where "occurs_at compare T P i0" ..
  from occurs_at_least[OF this] obtain i where
    i: "occurs_at compare T P i" "\<forall>k<i. \<not> occurs_at compare T P k" by blast
  from i(1) p have lt: "i < length T" by (cases P) (auto simp: occurs_at_def)
  have f: "find_forward_optimized T P compare = (drop i T, drop (i + length P) T)"
    by (rule find_forward_optimized_found[OF i])
  have "replace_all_in_place_forward T P R compare =
        replace_all_copy_forward (take i T @ R) (drop (i + length P) T) P R compare"
    using f lt
    by (simp add: replace_all_in_place_forward_def is_end_position_def text_between_def
          distance_def Let_def)
  also have "\<dots> = replace_all_copy_forward [] T P R compare"
    using replace_forward_leftmost[OF p i, of "[]" R] by simp
  finally show ?thesis .
qed

lemma length_content: "well_formed nul obj \<Longrightarrow> length (content obj) = used obj"
  by (simp add: well_formed_def content_def)

lemma push_back_content:
  assumes "well_formed nul obj"
  shows "content (fst (push_back nul (obj, live) c)) = content obj @ [c]"
    and "well_formed nul (fst (push_back nul (obj, live) c))"
proof -
  from assms have u: "used obj < length (storage obj)" by (simp add: well_formed_def)
  show "content (fst (push_back nul (obj, live) c)) = content obj @ [c]"
  proof (cases "used obj + 1 < length (storage obj)")
    case True
    with u show ?thesis
      by (simp add: push_back_def content_def take_Suc_conv_app_nth)
  next
    case False
    with u show ?thesis
      by (simp add: push_back_def content_def)
  qed
  show "well_formed nul (fst (push_back nul (obj, live) c))"
  proof (cases "used obj + 1 < length (storage obj)")
    case True
    then show ?thesis by (simp add: push_back_def well_formed_def)
  next
    case False
    with u show ?thesis
      by (simp add: push_back_def well_formed_def content_def nth_append)
  qed
qed

lemma append_own_content:
  "well_formed nul (fst st) \<Longrightarrow>
   content (fst (append_own nul st units)) = content (fst st) @ units \<and>
   well_formed nul (fst (append_own nul st units))"
proof (induction units arbitrary: st)
  case Nil
  then show ?case by simp
next
  case (Cons c cs)
  obtain obj live where st: "st = (obj, live)" by (cases st)
  with Cons.prems have w: "well_formed nul obj" by simp
  from Cons.IH[OF push_back_content(2)[OF w, of live c]] push_back_content(1)[OF w, of live c] st
  show ?case by simp
qed

lemma resize_content:
  assumes "well_formed nul obj" "n \<le> used obj"
  shows "content (resize nul obj n) = take n (content obj)"
    and "well_formed nul (resize nul obj n)"
  using assms by (simp_all add: resize_def content_def well_formed_def min_def)

lemma forward_storage_Nil:
  "replace_all_copy_forward_storage nul st [] P R compare = Some (Returns (fst st))"
  by (subst replace_all_copy_forward_storage.simps) simp

lemma forward_storage_match:
  assumes "snd (read_both compare (c # itt) P) = []"
  shows "replace_all_copy_forward_storage nul st (c # itt) (Own P) (Own R) compare =
         replace_all_copy_forward_storage nul (append_own nul st R) (drop (length P) (c # itt))
           (Own P) (Own R) compare"
  using assms
  by (subst replace_all_copy_forward_storage.simps)
     (simp add: is_end_position_def read_both_fst_of_match)

lemma forward_storage_no_match:
  assumes "snd (read_both compare (c # itt) P) \<noteq> []"
  shows "replace_all_copy_forward_storage nul st (c # itt) (Own P) (Own R) compare =
         replace_all_copy_forward_storage nul (push_back nul st c) itt (Own P) (Own R) compare"
  using assms
  by (subst replace_all_copy_forward_storage.simps) (simp add: is_end_position_def)

lemma forward_storage_own:
  "P \<noteq> [] \<Longrightarrow> well_formed nul (fst st) \<Longrightarrow>
   \<exists>obj'. replace_all_copy_forward_storage nul st itt (Own P) (Own R) compare = Some (Returns obj') \<and>
          well_formed nul obj' \<and>
          replace_all_copy_forward (content (fst st)) itt P R compare = Some (content obj')"
proof (induction "length itt" arbitrary: itt st rule: less_induct)
  case less
  show ?case
  proof (cases itt)
    case Nil
    with less.prems show ?thesis
      by (simp add: forward_storage_Nil replace_forward_Nil)
  next
    case (Cons c cs)
    obtain obj live where st: "st = (obj, live)" by (cases st)
    with less.prems have w: "well_formed nul obj" by simp
    show ?thesis
    proof (cases "snd (read_both compare (c # cs) P) = []")
      case True
      from less.prems(1) have "length (drop (length P) (c # cs)) < length itt"
        unfolding Cons by (cases P) auto
      from less.hyps[OF this less.prems(1), of "append_own nul st R"]
        append_own_content[OF less.prems(2), of R]
        forward_storage_match[OF True, of nul st R]
        replace_forward_match[OF True, of "content (fst st)" R]
      show ?thesis unfolding Cons by simp
    next
      case False
      have "length cs < length itt" unfolding Cons by simp
      from less.hyps[OF this less.prems(1), of "push_back nul st c"]
        push_back_content[OF w, of live c]
        forward_storage_no_match[OF False, of nul st R]
        replace_forward_no_match[OF False, of "content (fst st)" R]
      show ?thesis unfolding Cons st by simp
    qed
  qed
qed

lemma in_place_forward_storage_own:
  assumes p: "P \<noteq> []" and w: "well_formed nul obj"
  shows "\<exists>obj'. replace_all_in_place_forward_storage nul obj (Own P) (Own R) compare =
                  Some (Returns obj') \<and> well_formed nul obj' \<and>
                replace_all_in_place_forward (content obj) P R compare = Some (content obj')"
proof (cases "is_end_position (fst (find_forward_optimized (content obj) P compare))")
  case True
  with w show ?thesis
    by (simp add: replace_all_in_place_forward_storage_def replace_all_in_place_forward_def Let_def)
next
  case False
  let ?f = "find_forward_optimized (content obj) P compare"
  let ?n = "distance (fst ?f) (content obj)"
  have n: "?n \<le> used obj"
    using length_content[OF w] by (simp add: distance_def)
  let ?st = "append_own nul (resize nul obj ?n, True) R"
  have c: "content (fst ?st) = take ?n (content obj) @ R" and w': "well_formed nul (fst ?st)"
    using append_own_content[of nul "(resize nul obj ?n, True)" R] resize_content[OF w n]
    by simp_all
  from forward_storage_own[OF p w', of "text_between (snd ?f) []" R compare] c False
  show ?thesis
    by (simp add: replace_all_in_place_forward_storage_def replace_all_in_place_forward_def Let_def)
qed

lemma in_place_forward_storage_none:
  "\<forall>k. \<not> occurs_at compare (content obj) P k \<Longrightarrow>
   replace_all_in_place_forward_storage nul obj (Own P) R compare = Some (Returns obj)"
  by (simp add: replace_all_in_place_forward_storage_def find_forward_optimized_not_found
        is_end_position_def)

section \<open>Claims about replace\<close>

text \<open>
  Claim C2.  With an empty pattern, \<open>replace_all_copy\<close> and \<open>replace_all_in_place\<close> fail
  with \<open>invalid_argument\<close> for every text and every replacement, and so does the
  construction of a \<open>split_token_iterator\<close> with an empty separator token.  The failure
  is atomic: the string object handed to \<open>replace_all_in_place\<close> holds the same content
  after the failed call as before (the constructor and \<open>replace_all_copy\<close> write to none
  of their arguments).
\<close>

theorem empty_pattern_invalid_argument:
  "replace_all_copy T [] R compare =
     Some (Inl (invalid_argument ''The replace_all_copy input parameter text_to_be_replaced must not be empty.''))
   \<and> replace_all_in_place T [] R compare =
     Some (T, Some (invalid_argument ''The replace_all_in_place input parameter text_to_be_replaced must not be empty.''))
   \<and> make_split_token_iterator T [] mode compare =
     Some (Inl (invalid_argument ''The separator_token input parameter for the split_token_iterator must not be empty.''))"
  by (simp add: replace_all_copy_def replace_all_in_place_def make_split_token_iterator_def
        is_end_position_def)

theorem empty_pattern_invalid_argument_witness:
  "replace_all_copy ''Hello World'' ([]::string) ''H'' equals_comparer =
     Some (Inl (invalid_argument ''The replace_all_copy input parameter text_to_be_replaced must not be empty.''))
   \<and> replace_all_in_place ''Hello World'' ([]::string) ''H'' equals_comparer =
     Some (''Hello World'', Some (invalid_argument ''The replace_all_in_place input parameter text_to_be_replaced must not be empty.''))
   \<and> make_split_token_iterator ''Hello World'' ([]::string) skip_empty equals_comparer =
     Some (Inl (invalid_argument ''The separator_token input parameter for the split_token_iterator must not be empty.''))"
  by (rule empty_pattern_invalid_argument)

text \<open>
  Claim C3.  For a non-empty pattern \<open>P\<close>, \<open>replace_all_copy\<close> works from left to
  right on leftmost occurrences: a text without an occurrence of \<open>P\<close> is returned as it
  is, and when the leftmost occurrence of \<open>P\<close> starts at index \<open>i\<close> the result is the
  text before \<open>i\<close>, then the replacement \<open>R\<close>, then the result of the same operation on
  the text strictly behind the matched region.  The inserted replacement is thus never
  scanned and replacements cannot overlap; \<open>aaaa aaaa\<close> with \<open>aa\<close> replaced by \<open>123\<close>
  gives \<open>123123 123123\<close>.
\<close>

theorem replace_all_copy_leftmost:
  "(P \<noteq> [] \<longrightarrow>
      ((\<forall>k. \<not> occurs_at compare T P k) \<longrightarrow> replace_all_copy T P R compare = Some (Inr T))
    \<and> (occurs_at compare T P i \<and> (\<forall>k<i. \<not> occurs_at compare T P k) \<longrightarrow>
         (\<exists>rest. replace_all_copy (drop (i + length P) T) P R compare = Some (Inr rest) \<and>
                 replace_all_copy T P R compare = Some (Inr (take i T @ R @ rest)))))
   \<and> replace_all_copy ''aaaa aaaa'' ''aa'' ''123'' equals_comparer = Some (Inr ''123123 123123'')"
proof -
  have a: "replace_all_copy T P R compare = Some (Inr T)"
    if "P \<noteq> []" "\<forall>k. \<not> occurs_at compare T P k"
    using that by (simp add: replace_all_copy_nonempty replace_forward_none)
  have b: "\<exists>rest. replace_all_copy (drop (i + length P) T) P R compare = Some (Inr rest) \<and>
                 replace_all_copy T P R compare = Some (Inr (take i T @ R @ rest))"
    if p: "P \<noteq> []" and o: "occurs_at compare T P i" and l: "\<forall>k<i. \<not> occurs_at compare T P k"
  proof -
    from replace_forward_total[OF p, of "drop (i + length P) T" R compare] obtain out where
      out: "\<forall>res. replace_all_copy_forward res (drop (i + length P) T) P R compare = Some (res @ out)"
      by blast
    from out have 1: "replace_all_copy_forward [] (drop (i + length P) T) P R compare = Some out"
      by (metis append_Nil)
    from replace_forward_leftmost[OF p o l, of "[]" R] out
    have 2: "replace_all_copy_forward [] T P R compare = Some (take i T @ R @ out)" by simp
    from 1 2 p show ?thesis by (simp add: replace_all_copy_nonempty)
  qed
  have c: "replace_all_copy ''aaaa aaaa'' ''aa'' ''123'' equals_comparer = Some (Inr ''123123 123123'')"
    by code_simp
  from a b c show ?thesis by blast
qed

theorem replace_all_copy_leftmost_witness:
  "replace_all_copy ''aaaa'' ''aa'' ''aaa'' equals_comparer = Some (Inr ''aaaaaa'')
   \<and> replace_all_copy ''Hello'' ''xy'' ''123'' equals_comparer = Some (Inr ''Hello'')"
proof -
  have p: "''aa'' \<noteq> ([]::string)" by simp
  have o: "occurs_at equals_comparer ''aaaa'' ''aa'' 0" by code_simp
  have l: "\<forall>k<0::nat. \<not> occurs_at equals_comparer ''aaaa'' ''aa'' k" by simp
  have r: "replace_all_copy ''aa'' ''aa'' ''aaa'' equals_comparer = Some (Inr ''aaa'')" by code_simp
  from replace_all_copy_leftmost[of "''aa''" equals_comparer "''aaaa''" "''aaa''" 0] p o l
  obtain rest where
    "replace_all_copy (drop (0 + length ''aa'') ''aaaa'') ''aa'' ''aaa'' equals_comparer = Some (Inr rest)"
    "replace_all_copy ''aaaa'' ''aa'' ''aaa'' equals_comparer = Some (Inr (take 0 ''aaaa'' @ ''aaa'' @ rest))"
    by blast
  with r have a: "replace_all_copy ''aaaa'' ''aa'' ''aaa'' equals_comparer = Some (Inr ''aaaaaa'')"
    by simp
  have q: "''xy'' \<noteq> ([]::string)" by simp
  have "\<not> contains ''Hello'' ''xy'' equals_comparer" by code_simp
  then have n: "\<forall>k. \<not> occurs_at equals_comparer ''Hello'' ''xy'' k"
    by (simp add: contains_iff_occurs)
  from replace_all_copy_leftmost[of "''xy''" equals_comparer "''Hello''" "''123''" 0] q n
  have b: "replace_all_copy ''Hello'' ''xy'' ''123'' equals_comparer = Some (Inr ''Hello'')"
    by blast
  from a b show ?thesis by blast
qed

text \<open>
  Claim C4, as amended.  For every string object \<open>T\<close>, every non-empty pattern \<open>P\<close> and
  every replacement \<open>R\<close> that do not share storage with \<open>T\<close>, and every comparer, the
  string object holds after \<open>replace_all_in_place\<close> exactly the string
  \<open>replace_all_copy\<close> returns for the original content; when the pattern does not occur
  the string object is left unchanged.  The statement is given for the value-level
  function and for the function on the storage with operands of their own.
\<close>

theorem replace_all_in_place_equals_copy:
  "(P \<noteq> [] \<longrightarrow>
     (\<exists>r. replace_all_copy T P R compare = Some (Inr r) \<and>
          replace_all_in_place T P R compare = Some (r, None))
     \<and> ((\<forall>k. \<not> occurs_at compare T P k) \<longrightarrow> replace_all_in_place T P R compare = Some (T, None)))
   \<and> (P' \<noteq> [] \<and> well_formed nul obj \<longrightarrow>
     (\<exists>obj'. replace_all_in_place_storage nul obj (Own P') (Own R') compare' =
               Some (Returns (obj', None)) \<and>
             well_formed nul obj' \<and>
             replace_all_copy (content obj) P' R' compare' = Some (Inr (content obj')))
     \<and> ((\<forall>k. \<not> occurs_at compare' (content obj) P' k) \<longrightarrow>
          replace_all_in_place_storage nul obj (Own P') (Own R') compare' =
            Some (Returns (obj, None))))"
proof -
  have a: "\<exists>r. replace_all_copy T P R compare = Some (Inr r) \<and>
          replace_all_in_place T P R compare = Some (r, None)" if p: "P \<noteq> []"
  proof -
    from replace_forward_total[OF p, of T R compare] obtain out where
      "\<forall>res. replace_all_copy_forward res T P R compare = Some (res @ out)" by blast
    then have "replace_all_copy_forward [] T P R compare = Some out" by (metis append_Nil)
    with p show ?thesis
      by (simp add: replace_all_copy_nonempty replace_all_in_place_def is_end_position_def
            replace_all_in_place_forward_is_copy)
  qed
  have b: "replace_all_in_place T P R compare = Some (T, None)"
    if "P \<noteq> []" "\<forall>k. \<not> occurs_at compare T P k"
    using that
    by (simp add: replace_all_in_place_def is_end_position_def
          replace_all_in_place_forward_is_copy replace_forward_none)
  have c: "\<exists>obj'. replace_all_in_place_storage nul obj (Own P') (Own R') compare' =
               Some (Returns (obj', None)) \<and>
             well_formed nul obj' \<and>
             replace_all_copy (content obj) P' R' compare' = Some (Inr (content obj'))"
    if p: "P' \<noteq> []" and w: "well_formed nul obj"
  proof -
    from in_place_forward_storage_own[OF p w, of R' compare'] obtain obj' where
      o: "replace_all_in_place_forward_storage nul obj (Own P') (Own R') compare' =
            Some (Returns obj')" "well_formed nul obj'"
         "replace_all_in_place_forward (content obj) P' R' compare' = Some (content obj')"
      by blast
    from o(3) p have "replace_all_copy (content obj) P' R' compare' = Some (Inr (content obj'))"
      by (simp add: replace_all_copy_nonempty replace_all_in_place_forward_is_copy)
    with o(1,2) p show ?thesis
      by (simp add: replace_all_in_place_storage_def is_end_position_def)
  qed
  have d: "replace_all_in_place_storage nul obj (Own P') (Own R') compare' =
            Some (Returns (obj, None))"
    if "P' \<noteq> []" "\<forall>k. \<not> occurs_at compare' (content obj) P' k"
    using that
    by (simp add: replace_all_in_place_storage_def is_end_position_def
          in_place_forward_storage_none)
  from a b c d show ?thesis by blast
qed

theorem replace_all_in_place_equals_copy_witness:
  "replace_all_in_place ''Hello World'' ''l'' ''123'' equals_comparer = Some (''He123123o Wor123d'', None)
   \<and> replace_all_in_place ''Hello World'' ''xxxx'' ''123'' equals_comparer = Some (''Hello World'', None)
   \<and> (\<exists>obj'. replace_all_in_place_storage (CHR 0x00) (short_string ''Hello World'') (Own ''l'')
                 (Own ''123'') equals_comparer = Some (Returns (obj', None)) \<and>
               content obj' = ''He123123o Wor123d'')
   \<and> replace_all_in_place_storage (CHR 0x00) (short_string ''Hello World'') (Own ''xxxx'')
         (Own ''123'') equals_comparer = Some (Returns (short_string ''Hello World'', None))"
proof -
  have p: "''l'' \<noteq> ([]::string)" by simp
  have q: "''xxxx'' \<noteq> ([]::string)" by simp
  have w: "well_formed (CHR 0x00) (short_string ''Hello World'')" by code_simp
  have t: "content (short_string ''Hello World'') = ''Hello World''" by code_simp
  have c: "replace_all_copy ''Hello World'' ''l'' ''123'' equals_comparer = Some (Inr ''He123123o Wor123d'')"
    by code_simp
  have "\<not> contains ''Hello World'' ''xxxx'' equals_comparer" by code_simp
  then have n: "\<forall>k. \<not> occurs_at equals_comparer ''Hello World'' ''xxxx'' k"
    by (simp add: contains_iff_occurs)
  note l = replace_all_in_place_equals_copy[of "''l''" "''Hello World''" "''123''" equals_comparer
      "''l''" "CHR 0x00" "short_string ''Hello World''" "''123''" equals_comparer]
  note x = replace_all_in_place_equals_copy[of "''xxxx''" "''Hello World''" "''123''" equals_comparer
      "''xxxx''" "CHR 0x00" "short_string ''Hello World''" "''123''" equals_comparer]
  from l p obtain r where "replace_all_copy ''Hello World'' ''l'' ''123'' equals_comparer = Some (Inr r)"
    "replace_all_in_place ''Hello World'' ''l'' ''123'' equals_comparer = Some (r, None)"
    by blast
  with c have a: "replace_all_in_place ''Hello World'' ''l'' ''123'' equals_comparer =
      Some (''He123123o Wor123d'', None)"
    by simp
  from x q n have b: "replace_all_in_place ''Hello World'' ''xxxx'' ''123'' equals_comparer =
      Some (''Hello World'', None)"
    by blast
  from l p w obtain obj' where
    "replace_all_in_place_storage (CHR 0x00) (short_string ''Hello World'') (Own ''l'')
       (Own ''123'') equals_comparer = Some (Returns (obj', None))"
    "replace_all_copy (content (short_string ''Hello World'')) ''l'' ''123'' equals_comparer =
       Some (Inr (content obj'))"
    by blast
  with c t have d: "\<exists>obj'. replace_all_in_place_storage (CHR 0x00) (short_string ''Hello World'')
        (Own ''l'') (Own ''123'') equals_comparer = Some (Returns (obj', None)) \<and>
      content obj' = ''He123123o Wor123d''"
    by simp
  from x q w n t have e: "replace_all_in_place_storage (CHR 0x00) (short_string ''Hello World'')
      (Own ''xxxx'') (Own ''123'') equals_comparer = Some (Returns (short_string ''Hello World'', None))"
    by simp
  from a b d e show ?thesis by blast
qed

text \<open>
  Claim C4 as stated covers every pattern and every replacement.  When the replacement
  is the string object itself, \<open>aXa\<close> with \<open>X\<close> replaced ends as \<open>aaaaa\<close> where
  \<open>replace_all_copy\<close> returns \<open>aaXaa\<close>: the replacement is read from the storage after
  the object has been clipped and while it is appended to.  When the pattern is the
  first unit of the string object \<open>aba\<close> and the replacement is \<open>xy\<close>, the object ends
  as \<open>xyba\<close> where \<open>replace_all_copy\<close> returns \<open>xybxy\<close>.
\<close>

theorem replace_all_in_place_shared_storage_counterexample:
  "content (short_string ''aXa'') = ''aXa''
   \<and> replace_all_in_place_storage (CHR 0x00) (short_string ''aXa'') (Own ''X'') (Shared 0 3)
        equals_comparer = Some (Returns (short_string ''aaaaa'', None))
   \<and> content (short_string ''aaaaa'') = ''aaaaa''
   \<and> replace_all_copy ''aXa'' ''X'' ''aXa'' equals_comparer = Some (Inr ''aaXaa'')
   \<and> content (short_string ''aba'') = ''aba''
   \<and> replace_all_in_place_storage (CHR 0x00) (short_string ''aba'') (Shared 0 1) (Own ''xy'')
        equals_comparer = Some (Returns (short_string ''xyba'', None))
   \<and> content (short_string ''xyba'') = ''xyba''
   \<and> replace_all_copy ''aba'' ''a'' ''xy'' equals_comparer = Some (Inr ''xybxy'')"
  by code_simp

text \<open>
  Claim C10.  Under the default comparer, replacing a non-empty pattern by itself
  returns the text unchanged.
\<close>

theorem replace_all_copy_same_identity:
  "P \<noteq> [] \<longrightarrow> replace_all_copy T P P equals_comparer = Some (Inr T)"
  using replace_forward_same[of P "[]" T] by (simp add: replace_all_copy_nonempty)

theorem replace_all_copy_same_identity_witness:
  "''bc'' \<noteq> ([]::string) \<and> replace_all_copy ''abcabc'' ''bc'' ''bc'' equals_comparer = Some (Inr ''abcabc'')"
  using replace_all_copy_same_identity[of "''bc''" "''abcabc''"] by simp

section \<open>Claims about trim\<close>

lemma trim_iterator_dropWhile: "trim_iterator xs p = dropWhile p xs"
  by (induction xs) auto

lemma trim_start_only: "implementation_trim_copy T p True False = dropWhile p T"
  by (simp add: implementation_trim_copy_def trim_iterator_dropWhile is_end_position_def
        text_between_def distance_def base_def make_const_terminated_iterator_reverse_def Let_def)

lemma base_after_trim_start:
  assumes "dropWhile p T \<noteq> []"
  shows "drop (length (dropWhile p (rev T))) T =
         drop (length (dropWhile p (rev (dropWhile p T)))) (dropWhile p T)"
proof -
  let ?S = "dropWhile p T"
  let ?W = "takeWhile p T"
  have T: "T = ?W @ ?S" by simp
  from assms have "\<not> p (hd ?S)" by (rule hd_dropWhile)
  with assms have "\<exists>x\<in>set (rev ?S). \<not> p x"
    by (metis hd_in_set set_rev)
  then obtain x where x: "x \<in> set (rev ?S)" "\<not> p x" by blast
  have "rev T = rev ?S @ rev ?W" by (metis T rev_append)
  then have "dropWhile p (rev T) = dropWhile p (rev ?S) @ rev ?W"
    using x by simp
  then have len: "length (dropWhile p (rev T)) = length (dropWhile p (rev ?S)) + length ?W"
    by simp
  have "drop (length (dropWhile p (rev ?S)) + length ?W) T =
        drop (length (dropWhile p (rev ?S))) (drop (length ?W) T)"
    by simp
  also have "drop (length ?W) T = ?S"
    by (rule dropWhile_eq_drop[symmetric])
  finally show ?thesis using len by simp
qed

lemma trim_both_via_start:
  "implementation_trim_copy T p True True =
   implementation_trim_copy (dropWhile p T) p False True"
proof (cases "dropWhile p T = []")
  case True
  then show ?thesis
    by (simp add: implementation_trim_copy_def trim_iterator_dropWhile is_end_position_def Let_def)
next
  case False
  with base_after_trim_start[OF False] show ?thesis
    by (simp add: implementation_trim_copy_def trim_iterator_dropWhile is_end_position_def
          base_def make_const_terminated_iterator_reverse_def Let_def)
qed

text \<open>
  Claim C7.  With the default whitespace predicate, trimming both ends of a string in
  one call gives the same string as trimming its start first and then the end of the
  result, for every string; when every unit of the string is whitespace both sides are
  the empty string.
\<close>

theorem trim_copy_composition:
  "trim_copy global_locale T = trim_end_copy global_locale (trim_start_copy global_locale T)
   \<and> ((\<forall>c\<in>set T. is_space global_locale c) \<longrightarrow>
        trim_copy global_locale T = [] \<and>
        trim_end_copy global_locale (trim_start_copy global_locale T) = [])"
proof -
  have a: "trim_copy global_locale T = trim_end_copy global_locale (trim_start_copy global_locale T)"
    by (simp add: trim_copy_def trim_end_copy_def trim_start_copy_def trim_start_only
          trim_both_via_start)
  have b: "trim_copy global_locale T = []" if "\<forall>c\<in>set T. is_space global_locale c"
  proof -
    from that have "dropWhile (is_space global_locale) T = []" by simp
    then show ?thesis
      by (simp add: trim_copy_def implementation_trim_copy_def trim_iterator_dropWhile
            is_end_position_def text_between_def Let_def)
  qed
  from a b show ?thesis by simp
qed

theorem trim_copy_composition_witness:
  "trim_copy classic_locale ''   '' = []
   \<and> trim_end_copy classic_locale (trim_start_copy classic_locale ''   '') = []
   \<and> trim_end_copy classic_locale (trim_start_copy classic_locale '' Hello World  '') = ''Hello World''
   \<and> trim_copy classic_locale '' Hello World  '' = ''Hello World''"
proof -
  have s: "\<forall>c\<in>set ''   ''. is_space classic_locale c"
    by (simp add: is_space_def classic_locale_def)
  have e: "trim_end_copy classic_locale (trim_start_copy classic_locale '' Hello World  '') = ''Hello World''"
    by code_simp
  from trim_copy_composition[of classic_locale "''   ''"] s
    trim_copy_composition[of classic_locale "'' Hello World  ''"] e
  show ?thesis by simp
qed

section \<open>Facts about join and the split iterator\<close>

lemma copy_loop_append: "copy_loop target src = target @ src"
  by (induction src arbitrary: target) auto

lemma copy_append: "copy target src False = target @ src"
  by (simp add: copy_def copy_loop_append)

lemma join_loop_rest:
  "join_loop target False container separator = target @ concat (map ((@) separator) container)"
  by (induction container arbitrary: target) (auto simp: copy_append)

lemma find_cases:
  assumes "sep \<noteq> []"
  shows "find_forward_optimized u sep compare = ([], []) \<or>
         (\<exists>i. occurs_at compare u sep i \<and> i < length u \<and>
              find_forward_optimized u sep compare = (drop i u, drop (i + length sep) u))"
proof (cases "\<exists>i. occurs_at compare u sep i")
  case False
  then show ?thesis by (simp add: find_forward_optimized_not_found)
next
  case True
  then obtain i0 where "occurs_at compare u sep i0" ..
  from occurs_at_least[OF this] obtain i where
    i: "occurs_at compare u sep i" "\<forall>k<i. \<not> occurs_at compare u sep k" by blast
  from i(1) assms have "i < length u" by (cases sep) (auto simp: occurs_at_def)
  with i find_forward_optimized_found[OF i] show ?thesis by blast
qed

lemma sections_not_found:
  "find_forward_optimized u sep compare = ([], []) \<Longrightarrow> sections compare sep u = [u]"
  by (subst sections.simps) simp

lemma sections_found:
  "i < length u \<Longrightarrow> sep \<noteq> [] \<Longrightarrow>
   find_forward_optimized u sep compare = (drop i u, drop (i + length sep) u) \<Longrightarrow>
   sections compare sep u = take i u # sections compare sep (drop (i + length sep) u)"
  by (subst sections.simps) (cases sep, auto simp: text_between_def distance_def)

lemma advance_all:
  "advance \<lparr>comparer = cmp, itt_text = t, itt_separator = sep, current_separator = (b, e),
            current_range = r, used_mode = all, is_end = False\<rparr> =
   Some \<lparr>comparer = cmp, itt_text = e, itt_separator = sep,
         current_separator = find_forward_optimized e sep cmp,
         current_range = (e, fst (find_forward_optimized e sep cmp)),
         used_mode = all, is_end = is_end_position b\<rparr>"
  by (subst advance.simps) (simp add: Let_def)

lemma split_token_loop_end:
  "is_end st \<Longrightarrow> split_token_loop c st = Some c"
  by (subst split_token_loop.simps) simp

lemma split_token_loop_all:
  "sep \<noteq> [] \<Longrightarrow>
   split_token_loop c \<lparr>comparer = cmp, itt_text = u, itt_separator = sep,
        current_separator = find_forward_optimized u sep cmp,
        current_range = (u, fst (find_forward_optimized u sep cmp)),
        used_mode = all, is_end = False\<rparr> = Some (c @ sections cmp sep u)"
proof (induction "length u" arbitrary: u c rule: less_induct)
  case less
  obtain b e where f: "find_forward_optimized u sep cmp = (b, e)"
    by (cases "find_forward_optimized u sep cmp") auto
  have step: "split_token_loop c \<lparr>comparer = cmp, itt_text = u, itt_separator = sep,
        current_separator = (b, e), current_range = (u, b), used_mode = all, is_end = False\<rparr> =
      split_token_loop (c @ [text_between u b]) \<lparr>comparer = cmp, itt_text = e, itt_separator = sep,
         current_separator = find_forward_optimized e sep cmp,
         current_range = (e, fst (find_forward_optimized e sep cmp)),
         used_mode = all, is_end = is_end_position b\<rparr>"
    by (subst split_token_loop.simps) (simp add: advance_all)
  from find_cases[OF less.prems, of u cmp] show ?case
  proof
    assume n: "find_forward_optimized u sep cmp = ([], [])"
    with f have "b = []" "e = []" by auto
    with step f n show ?thesis
      by (simp add: split_token_loop_end is_end_position_def sections_not_found
            text_between_def distance_def)
  next
    assume "\<exists>i. occurs_at cmp u sep i \<and> i < length u \<and>
              find_forward_optimized u sep cmp = (drop i u, drop (i + length sep) u)"
    then obtain i where i: "i < length u"
      "find_forward_optimized u sep cmp = (drop i u, drop (i + length sep) u)" by blast
    with f have be: "b = drop i u" "e = drop (i + length sep) u" by auto
    from i(1) less.prems have "length e < length u" unfolding be by (cases sep) auto
    from less.hyps[OF this less.prems, of "c @ [text_between u b]"] step f i be
    show ?thesis
      by (simp add: is_end_position_def sections_found[OF i(1) less.prems i(2)]
            text_between_def distance_def)
  qed
qed

lemma find_empty_text: "sep \<noteq> [] \<Longrightarrow> find_forward_optimized [] sep compare = ([], [])"
  by (simp add: find_forward_optimized_def is_end_position_def)

lemma split_token_all:
  assumes "sep \<noteq> []"
  shows "split_token c T sep all cmp clear =
         Some ((if clear then [] else c) @ sections cmp sep T, None)"
proof (cases "T = []")
  case True
  with assms split_token_loop_all[OF assms, of "if clear then [] else c" cmp "[]"]
  show ?thesis
    by (simp add: split_token_def make_split_token_iterator_def is_end_position_def
          find_empty_text Let_def)
next
  case False
  with assms split_token_loop_all[OF assms, of "if clear then [] else c" cmp T]
  show ?thesis
    by (simp add: split_token_def make_split_token_iterator_def is_end_position_def
          advance_all Let_def)
qed

lemma sections_join:
  "sep \<noteq> [] \<Longrightarrow>
   \<exists>s rest. sections equals_comparer sep u = s # rest \<and> s @ concat (map ((@) sep) rest) = u"
proof (induction "length u" arbitrary: u rule: less_induct)
  case less
  from find_cases[OF less.prems, of u equals_comparer] show ?case
  proof
    assume "find_forward_optimized u sep equals_comparer = ([], [])"
    then show ?thesis by (simp add: sections_not_found)
  next
    assume "\<exists>i. occurs_at equals_comparer u sep i \<and> i < length u \<and>
              find_forward_optimized u sep equals_comparer = (drop i u, drop (i + length sep) u)"
    then obtain i where i: "occurs_at equals_comparer u sep i" "i < length u"
      "find_forward_optimized u sep equals_comparer = (drop i u, drop (i + length sep) u)" by blast
    from i(2) less.prems have "length (drop (i + length sep) u) < length u" by (cases sep) auto
    from less.hyps[OF this less.prems] obtain s rest where
      sr: "sections equals_comparer sep (drop (i + length sep) u) = s # rest"
          "s @ concat (map ((@) sep) rest) = drop (i + length sep) u" by blast
    have "sections equals_comparer sep u = take i u # s # rest"
      using sections_found[OF i(2) less.prems i(3)] sr(1) by simp
    moreover have "take i u @ concat (map ((@) sep) (s # rest)) = u"
      using sr(2) occurs_at_equals_split[OF i(1)] by simp
    ultimately show ?thesis by blast
  qed
qed

lemma join_sections:
  assumes "sep \<noteq> []"
  shows "join target (sections equals_comparer sep T) sep True = T"
proof -
  from sections_join[OF assms, of T] obtain s rest where
    "sections equals_comparer sep T = s # rest" "s @ concat (map ((@) sep) rest) = T" by blast
  then show ?thesis by (simp add: join_def copy_append join_loop_rest)
qed

lemma advance_end: "is_end st \<Longrightarrow> advance st = Some st"
  by (subst advance.simps) simp

lemma advance_skip:
  "advance \<lparr>comparer = cmp, itt_text = t, itt_separator = sep, current_separator = (b, e),
            current_range = r, used_mode = skip_empty, is_end = False\<rparr> =
   (if same_position (fst (find_forward_optimized e sep cmp)) e
    then advance \<lparr>comparer = cmp, itt_text = e, itt_separator = sep,
         current_separator = find_forward_optimized e sep cmp,
         current_range = (e, fst (find_forward_optimized e sep cmp)),
         used_mode = skip_empty, is_end = is_end_position b\<rparr>
    else Some \<lparr>comparer = cmp, itt_text = e, itt_separator = sep,
         current_separator = find_forward_optimized e sep cmp,
         current_range = (e, fst (find_forward_optimized e sep cmp)),
         used_mode = skip_empty, is_end = is_end_position b\<rparr>)"
  by (subst advance.simps) (simp add: Let_def)

lemma advance_skip_exhausted:
  assumes "sep \<noteq> []"
  shows "advance \<lparr>comparer = cmp, itt_text = t, itt_separator = sep, current_separator = ([], []),
            current_range = r, used_mode = skip_empty, is_end = False\<rparr> =
         Some \<lparr>comparer = cmp, itt_text = [], itt_separator = sep, current_separator = ([], []),
            current_range = ([], []), used_mode = skip_empty, is_end = True\<rparr>"
  using assms
  by (simp add: advance_skip find_empty_text same_position_def is_end_position_def advance_end)

lemma split_token_loop_step:
  "\<not> is_end st \<Longrightarrow> split_token_loop c st =
     Option.bind (advance st)
       (split_token_loop (c @ [text_between (fst (current_range st)) (snd (current_range st))]))"
  by (subst split_token_loop.simps) simp

lemma split_token_loop_skip:
  "sep \<noteq> [] \<Longrightarrow> b \<noteq> [] \<Longrightarrow>
   Option.bind (advance \<lparr>comparer = cmp, itt_text = t, itt_separator = sep,
        current_separator = (b, u), current_range = r, used_mode = skip_empty, is_end = False\<rparr>)
     (split_token_loop c) = Some (c @ filter (\<lambda>s. s \<noteq> []) (sections cmp sep u))"
proof (induction "length u" arbitrary: u b t r c rule: less_induct)
  case less
  note sep = less.prems(1) and b = less.prems(2)
  from find_cases[OF sep, of u cmp] show ?case
  proof
    assume n: "find_forward_optimized u sep cmp = ([], [])"
    show ?thesis
    proof (cases "u = []")
      case True
      with n sep b show ?thesis
        by (simp add: advance_skip same_position_def is_end_position_def advance_end
              split_token_loop_end sections_not_found)
    next
      case False
      with n sep b show ?thesis
        by (simp add: advance_skip same_position_def is_end_position_def split_token_loop_step
              advance_end find_empty_text split_token_loop_end sections_not_found
              text_between_def distance_def)
    qed
  next
    assume "\<exists>i. occurs_at cmp u sep i \<and> i < length u \<and>
              find_forward_optimized u sep cmp = (drop i u, drop (i + length sep) u)"
    then obtain i where i: "i < length u"
      "find_forward_optimized u sep cmp = (drop i u, drop (i + length sep) u)" by blast
    from i(1) sep have lt: "length (drop (i + length sep) u) < length u" by (cases sep) auto
    from i(1) have ne: "drop i u \<noteq> []" by simp
    note sec = sections_found[OF i(1) sep i(2)]
    show ?thesis
    proof (cases "i = 0")
      case True
      with less.hyps[OF lt sep, of u u "(u, u)" c] i b sec show ?thesis
        by (simp add: advance_skip same_position_def is_end_position_def)
    next
      case False
      with i(1) have t: "take i u \<noteq> []" by auto
      from False i(1) have sp: "\<not> same_position (drop i u) u"
        by (simp add: same_position_def)
      from less.hyps[OF lt sep ne, of u "(u, drop i u)" "c @ [take i u]"] i b sec t sp
      show ?thesis
        by (simp add: advance_skip is_end_position_def split_token_loop_step
              text_between_def distance_def)
    qed
  qed
qed

lemma split_token_via_bind:
  "sep \<noteq> [] \<Longrightarrow> split_token c T sep skip_empty cmp clear =
     map_option (\<lambda>c2. (c2, None))
       (Option.bind (advance \<lparr>comparer = cmp, itt_text = T, itt_separator = sep,
            current_separator = (T, T), current_range = ([], []), used_mode = skip_empty,
            is_end = False\<rparr>)
          (split_token_loop (if clear then [] else c)))"
  by (cases "advance \<lparr>comparer = cmp, itt_text = T, itt_separator = sep,
            current_separator = (T, T), current_range = ([], []), used_mode = skip_empty,
            is_end = False\<rparr>")
     (simp_all add: split_token_def make_split_token_iterator_def is_end_position_def Let_def)

lemma split_token_skip_empty:
  assumes "sep \<noteq> []"
  shows "split_token c T sep skip_empty cmp clear =
         Some ((if clear then [] else c) @ filter (\<lambda>s. s \<noteq> []) (sections cmp sep T), None)"
proof (cases "T = []")
  case True
  with assms show ?thesis
    by (simp add: split_token_via_bind advance_skip_exhausted split_token_loop_end
          sections_not_found find_empty_text)
next
  case False
  with assms show ?thesis
    by (simp add: split_token_via_bind split_token_loop_skip)
qed

lemma sections_no_occurrence:
  "\<forall>k. \<not> occurs_at compare T sep k \<Longrightarrow> sections compare sep T = [T]"
  by (simp add: sections_not_found find_forward_optimized_not_found)

lemma sections_leftmost:
  assumes "sep \<noteq> []" "occurs_at compare T sep i" "\<forall>k<i. \<not> occurs_at compare T sep k"
  shows "sections compare sep T = take i T # sections compare sep (drop (i + length sep) T)"
proof -
  from assms(1,2) have "i < length T" by (cases sep) (auto simp: occurs_at_def)
  from sections_found[OF this assms(1) find_forward_optimized_found[OF assms(2,3)]]
  show ?thesis .
qed

section \<open>Claims about split and join\<close>

text \<open>
  Claim C5.  Token-mode split yields the empty sections between adjacent separators in
  mode \<open>all\<close> and drops them in mode \<open>skip_empty\<close>.  For every text, every non-empty
  separator and every comparer, mode \<open>all\<close> yields the text itself when the separator
  does not occur, and otherwise the text in front of the leftmost separator followed by
  the sections of the text behind it; when a second separator follows the first one
  directly, the section between them is the empty string.  The sections of mode
  \<open>skip_empty\<close> are the sections of mode \<open>all\<close> without the empty ones.  Splitting
  \<open>Hello World\<close> on \<open>l\<close> yields \<open>He\<close>, the empty section, \<open>o Wor\<close>, \<open>d\<close> in mode \<open>all\<close>
  and \<open>He\<close>, \<open>o Wor\<close>, \<open>d\<close> in mode \<open>skip_empty\<close>.
\<close>

theorem split_token_empty_sections:
  "(SEP \<noteq> [] \<longrightarrow>
      ((\<forall>k. \<not> occurs_at compare T SEP k) \<longrightarrow>
         split_token c T SEP all compare True = Some ([T], None))
    \<and> (occurs_at compare T SEP i \<and> (\<forall>k<i. \<not> occurs_at compare T SEP k) \<longrightarrow>
         (\<exists>rest. split_token c (drop (i + length SEP) T) SEP all compare True = Some (rest, None) \<and>
                 split_token c T SEP all compare True = Some (take i T # rest, None)))
    \<and> (occurs_at compare T SEP i \<and> (\<forall>k<i. \<not> occurs_at compare T SEP k) \<and>
       occurs_at compare (drop (i + length SEP) T) SEP 0 \<longrightarrow>
         (\<exists>rest. split_token c (drop (i + length SEP + length SEP) T) SEP all compare True =
                   Some (rest, None) \<and>
                 split_token c T SEP all compare True = Some (take i T # [] # rest, None)))
    \<and> (\<exists>secs. split_token c T SEP all compare True = Some (secs, None) \<and>
              split_token c T SEP skip_empty compare True = Some (filter (\<lambda>s. s \<noteq> []) secs, None)))
   \<and> split_token c' ''Hello World'' ''l'' all equals_comparer True =
         Some ([''He'', [], ''o Wor'', ''d''], None)
   \<and> split_token c' ''Hello World'' ''l'' skip_empty equals_comparer True =
         Some ([''He'', ''o Wor'', ''d''], None)"
proof -
  have s: "sections equals_comparer ''l'' ''Hello World'' = [''He'', [], ''o Wor'', ''d'']"
    by code_simp
  have a: "split_token c' ''Hello World'' ''l'' all equals_comparer True =
         Some ([''He'', [], ''o Wor'', ''d''], None)"
    by (simp add: split_token_all s)
  have b: "split_token c' ''Hello World'' ''l'' skip_empty equals_comparer True =
         Some ([''He'', ''o Wor'', ''d''], None)"
    by (simp add: split_token_skip_empty s)
  have g: "\<exists>secs. split_token c T SEP all compare True = Some (secs, None) \<and>
              split_token c T SEP skip_empty compare True = Some (filter (\<lambda>s. s \<noteq> []) secs, None)"
    if "SEP \<noteq> []"
    using that by (simp add: split_token_all split_token_skip_empty)
  have n: "split_token c T SEP all compare True = Some ([T], None)"
    if "SEP \<noteq> []" "\<forall>k. \<not> occurs_at compare T SEP k"
    using that by (simp add: split_token_all sections_no_occurrence)
  have l: "\<exists>rest. split_token c (drop (i + length SEP) T) SEP all compare True = Some (rest, None) \<and>
                 split_token c T SEP all compare True = Some (take i T # rest, None)"
    if "SEP \<noteq> []" "occurs_at compare T SEP i" "\<forall>k<i. \<not> occurs_at compare T SEP k"
    using that by (simp add: split_token_all sections_leftmost)
  have d: "\<exists>rest. split_token c (drop (i + length SEP + length SEP) T) SEP all compare True =
                   Some (rest, None) \<and>
                 split_token c T SEP all compare True = Some (take i T # [] # rest, None)"
    if p: "SEP \<noteq> []" and o: "occurs_at compare T SEP i" and m: "\<forall>k<i. \<not> occurs_at compare T SEP k"
      and o2: "occurs_at compare (drop (i + length SEP) T) SEP 0"
  proof -
    have "sections compare SEP (drop (i + length SEP) T) =
          take 0 (drop (i + length SEP) T) #
          sections compare SEP (drop (0 + length SEP) (drop (i + length SEP) T))"
      by (rule sections_leftmost[OF p o2]) simp
    then have "sections compare SEP T =
          take i T # [] # sections compare SEP (drop (i + length SEP + length SEP) T)"
      using sections_leftmost[OF p o m] by (simp add: add.commute)
    with p show ?thesis by (simp add: split_token_all)
  qed
  from a b g n l d show ?thesis by blast
qed

theorem split_token_empty_sections_witness:
  "split_token [] ''a,,b,'' '','' all equals_comparer True = Some ([''a'', [], ''b'', []], None)
   \<and> split_token [] ''a,,b,'' '','' skip_empty equals_comparer True = Some ([''a'', ''b''], None)
   \<and> split_token [] ''ab'' '','' all equals_comparer True = Some ([''ab''], None)
   \<and> (\<exists>rest. split_token [] '',b,'' '','' all equals_comparer True = Some (rest, None) \<and>
         split_token [] ''a,,b,'' '','' all equals_comparer True = Some (''a'' # rest, None))
   \<and> (\<exists>rest. split_token [] ''b,'' '','' all equals_comparer True = Some (rest, None) \<and>
         split_token [] ''a,,b,'' '','' all equals_comparer True = Some (''a'' # [] # rest, None))"
proof -
  have p: "'','' \<noteq> ([]::string)" by simp
  have a: "split_token [] ''a,,b,'' '','' all equals_comparer True = Some ([''a'', [], ''b'', []], None)"
    by code_simp
  have o: "occurs_at equals_comparer ''a,,b,'' '','' 1" by code_simp
  have o0: "\<not> occurs_at equals_comparer ''a,,b,'' '','' 0" by code_simp
  have m: "\<forall>k<1::nat. \<not> occurs_at equals_comparer ''a,,b,'' '','' k" using o0 by simp
  have o2: "occurs_at equals_comparer (drop (1 + length '','') ''a,,b,'') '','' 0" by code_simp
  have "\<not> contains ''ab'' '','' equals_comparer" by code_simp
  then have n: "\<forall>k. \<not> occurs_at equals_comparer ''ab'' '','' k"
    by (simp add: contains_iff_occurs)
  from split_token_empty_sections[of "'',''" equals_comparer "''a,,b,''" "[]" 1] p
  obtain secs where "split_token [] ''a,,b,'' '','' all equals_comparer True = Some (secs, None)"
    "split_token [] ''a,,b,'' '','' skip_empty equals_comparer True =
       Some (filter (\<lambda>s. s \<noteq> []) secs, None)"
    by blast
  with a have b: "split_token [] ''a,,b,'' '','' skip_empty equals_comparer True = Some ([''a'', ''b''], None)"
    by simp
  from split_token_empty_sections[of "'',''" equals_comparer "''ab''" "[]" 0] p n
  have c: "split_token [] ''ab'' '','' all equals_comparer True = Some ([''ab''], None)"
    by blast
  from split_token_empty_sections[of "'',''" equals_comparer "''a,,b,''" "[]" 1] p o m
  have "\<exists>rest. split_token [] (drop (1 + length '','') ''a,,b,'') '','' all equals_comparer True =
           Some (rest, None) \<and>
         split_token [] ''a,,b,'' '','' all equals_comparer True = Some (take 1 ''a,,b,'' # rest, None)"
    by blast
  then have d: "\<exists>rest. split_token [] '',b,'' '','' all equals_comparer True = Some (rest, None) \<and>
         split_token [] ''a,,b,'' '','' all equals_comparer True = Some (''a'' # rest, None)"
    by simp
  from split_token_empty_sections[of "'',''" equals_comparer "''a,,b,''" "[]" 1] p o m o2
  have "\<exists>rest. split_token [] (drop (1 + length '','' + length '','') ''a,,b,'') '','' all
             equals_comparer True = Some (rest, None) \<and>
         split_token [] ''a,,b,'' '','' all equals_comparer True =
           Some (take 1 ''a,,b,'' # [] # rest, None)"
    by blast
  then have e: "\<exists>rest. split_token [] ''b,'' '','' all equals_comparer True = Some (rest, None) \<and>
         split_token [] ''a,,b,'' '','' all equals_comparer True = Some (''a'' # [] # rest, None)"
    by simp
  from a b c d e show ?thesis by blast
qed

text \<open>
  Claim C6.  For every text \<open>T\<close> and every non-empty separator \<open>SEP\<close>, splitting \<open>T\<close> on
  \<open>SEP\<close> in mode \<open>all\<close> (default comparer) and joining the sections with \<open>SEP\<close> gives
  \<open>T\<close> back.  Splitting the empty text yields exactly one empty section, and a text
  ending in the separator (\<open>Hello World\<close> split on \<open>d\<close>) has an empty last section and
  is rebuilt by the join as well.
\<close>

theorem split_token_join_round_trip:
  "(SEP \<noteq> [] \<longrightarrow>
      (\<exists>secs. split_token c T SEP all equals_comparer True = Some (secs, None) \<and>
              join target secs SEP True = T)
      \<and> split_token c [] SEP all equals_comparer True = Some ([[]], None))
   \<and> split_token c' ''Hello World'' ''d'' all equals_comparer True = Some ([''Hello Worl'', []], None)
   \<and> join target' [''Hello Worl'', []] ''d'' True = ''Hello World''
   \<and> split_token c' ''Hello World'' '' '' all equals_comparer True = Some ([''Hello'', ''World''], None)
   \<and> join target' [''Hello'', ''World''] '' '' True = ''Hello World''"
proof -
  have g: "\<exists>secs. split_token c T SEP all equals_comparer True = Some (secs, None) \<and>
              join target secs SEP True = T" if "SEP \<noteq> []"
    using that by (simp add: split_token_all join_sections)
  have e: "split_token c [] SEP all equals_comparer True = Some ([[]], None)" if "SEP \<noteq> []"
    using that by (simp add: split_token_all sections_not_found find_empty_text)
  have s1: "sections equals_comparer ''d'' ''Hello World'' = [''Hello Worl'', []]" by code_simp
  have s2: "sections equals_comparer '' '' ''Hello World'' = [''Hello'', ''World'']" by code_simp
  have a: "split_token c' ''Hello World'' ''d'' all equals_comparer True = Some ([''Hello Worl'', []], None)"
    by (simp add: split_token_all s1)
  have b: "split_token c' ''Hello World'' '' '' all equals_comparer True = Some ([''Hello'', ''World''], None)"
    by (simp add: split_token_all s2)
  have j1: "join target' [''Hello Worl'', []] ''d'' True = ''Hello World''"
    by (simp add: join_def copy_append)
  have j2: "join target' [''Hello'', ''World''] '' '' True = ''Hello World''"
    by (simp add: join_def copy_append)
  from g e a b j1 j2 show ?thesis by blast
qed

theorem split_token_join_round_trip_witness:
  "join ''old'' [''a'', ''b'', [], []] ''--'' True = ''a--b----''
   \<and> split_token [] ''a--b----'' ''--'' all equals_comparer True = Some ([''a'', ''b'', [], []], None)
   \<and> split_token [''x''] ([]::string) ''--'' all equals_comparer True = Some ([[]], None)"
proof -
  have p: "''--'' \<noteq> ([]::string)" by simp
  have a: "split_token [] ''a--b----'' ''--'' all equals_comparer True = Some ([''a'', ''b'', [], []], None)"
    by code_simp
  from split_token_join_round_trip[of "''--''" "[]" "''a--b----''" "''old''"] p
  obtain secs where "split_token [] ''a--b----'' ''--'' all equals_comparer True = Some (secs, None)"
    "join ''old'' secs ''--'' True = ''a--b----''"
    by blast
  with a have j: "join ''old'' [''a'', ''b'', [], []] ''--'' True = ''a--b----''" by simp
  from split_token_join_round_trip[of "''--''" "[''x'']" "[]" "[]"] p
  have e: "split_token [''x''] ([]::string) ''--'' all equals_comparer True = Some ([[]], None)"
    by blast
  from j a e show ?thesis by blast
qed

text \<open>
  Claim C9.  \<open>join\<close> called on an empty container inserts no separator and appends
  nothing: with \<open>clear_target\<close> true the target is left empty, with \<open>clear_target\<close> false
  it is left as it was.
\<close>

theorem join_empty_container:
  "join target [] separator True = [] \<and> join target [] separator False = target"
  by (simp add: join_def)

theorem join_empty_container_witness:
  "join ''text'' [] '' - '' True = [] \<and> join ''text'' [] '' - '' False = ''text''"
  by (rule join_empty_container)

end
